theory Spec2Isabelle
  imports Main "HOL-Library.Product_Lexorder"
begin

section \<open>The grid model of \<open>Project.py\<close>\<close>

text \<open>
  \<open>CellType\<close> is the enum of the source. Only \<open>OBSTACLE\<close> is read by the search
  engine (in \<open>get_neighbors\<close>); the other states are written by the user interface.
\<close>

datatype CellType =
  EMPTY | OBSTACLE | START | GOAL | PATH | VISITED | ROBOT | FRONTIER | CURRENT

datatype Algorithm = ASTAR | BFS | DFS | UCS | DLS

datatype py_error = IndexError | KeyError

type_synonym pos = "int \<times> int"

text \<open>
  The fields of \<open>WarehouseRobotPicker\<close> that the search reads: \<open>self.rows\<close>,
  \<open>self.cols\<close> and \<open>self.grid\<close> (a list of rows, each a list of cell states). No run
  assigns to them.
\<close>

record picker =
  rows :: int
  cols :: int
  grid :: "CellType list list"

text \<open>
  A grid is well formed when \<open>self.grid\<close> has \<open>self.rows\<close> rows of \<open>self.cols\<close> cells each,
  as \<open>__init__\<close>, \<open>reset_grid\<close> and a successful \<open>load_layout\<close> build it. On such a grid
  the guarded read \<open>self.grid[new_row][new_col]\<close> of \<open>get_neighbors\<close> is always in range.
\<close>

definition wf_grid :: "'a picker_scheme \<Rightarrow> bool" where
  "wf_grid g \<longleftrightarrow>
     0 \<le> rows g \<and> 0 \<le> cols g \<and> int (length (grid g)) = rows g \<and>
     list_all (\<lambda>row. int (length row) = cols g) (grid g)"

definition in_bounds :: "'a picker_scheme \<Rightarrow> pos \<Rightarrow> bool" where
  "in_bounds g p \<longleftrightarrow> 0 \<le> fst p \<and> fst p < rows g \<and> 0 \<le> snd p \<and> snd p < cols g"

text \<open>The cell state at an in-bounds coordinate: \<open>self.grid[row][col]\<close>.\<close>

definition cell :: "'a picker_scheme \<Rightarrow> pos \<Rightarrow> CellType" where
  "cell g p = grid g ! nat (fst p) ! nat (snd p)"

text \<open>A coordinate the robot may stand on: inside the grid and not an obstacle.\<close>

definition free :: "'a picker_scheme \<Rightarrow> pos \<Rightarrow> bool" where
  "free g p \<longleftrightarrow> in_bounds g p \<and> cell g p \<noteq> OBSTACLE"

subsection \<open>\<open>get_neighbors\<close>\<close>

text \<open>
  \<^verbatim>\<open>
  def get_neighbors(self, pos):
      neighbors = []
      row, col = pos
      directions = [(-1, 0), (0, 1), (1, 0), (0, -1)]
      for dr, dc in directions:
          new_row, new_col = row + dr, col + dc
          if (0 <= new_row < self.rows and 0 <= new_col < self.cols and
              self.grid[new_row][new_col] != CellType.OBSTACLE):
              neighbors.append((new_row, new_col))
      return neighbors
  \<close>
  The \<open>for\<close> loop is the recursion over the list of directions; \<open>neighbors\<close> is the
  accumulator. The method assigns to no field of \<open>self\<close>, so the model returns the list
  only.
\<close>

definition directions :: "(int \<times> int) list" where
  "directions = [(-1, 0), (0, 1), (1, 0), (0, -1)]"

fun get_neighbors_loop ::
  "'a picker_scheme \<Rightarrow> int \<Rightarrow> int \<Rightarrow> (int \<times> int) list \<Rightarrow> pos list \<Rightarrow> pos list" where
  "get_neighbors_loop g row col [] neighbors = neighbors"
| "get_neighbors_loop g row col ((dr, dc) # ds) neighbors =
     (let new_row = row + dr; new_col = col + dc in
      if 0 \<le> new_row \<and> new_row < rows g \<and> 0 \<le> new_col \<and> new_col < cols g \<and>
         grid g ! nat new_row ! nat new_col \<noteq> OBSTACLE
      then get_neighbors_loop g row col ds (neighbors @ [(new_row, new_col)])
      else get_neighbors_loop g row col ds neighbors)"

definition get_neighbors :: "'a picker_scheme \<Rightarrow> pos \<Rightarrow> pos list" where
  "get_neighbors g p = get_neighbors_loop g (fst p) (snd p) directions []"

text \<open>The four cells around a coordinate, in the order up, right, down, left.\<close>

definition around :: "pos \<Rightarrow> pos list" where
  "around p = [(fst p - 1, snd p), (fst p, snd p + 1), (fst p + 1, snd p), (fst p, snd p - 1)]"

lemma get_neighbors_loop_filter:
  "get_neighbors_loop g row col ds acc =
     acc @ filter (free g) (map (\<lambda>(dr, dc). (row + dr, col + dc)) ds)"
  by (induction g row col ds acc rule: get_neighbors_loop.induct)
     (simp_all add: Let_def free_def in_bounds_def cell_def)

lemma get_neighbors_filter: "get_neighbors g p = filter (free g) (around p)"
  by (simp add: get_neighbors_def get_neighbors_loop_filter directions_def around_def)

text \<open>
  Claim C7. For a well-formed grid and an in-bounds position, \<open>get_neighbors\<close> returns
  exactly those of the cells above, right of, below and left of the position, in that
  order, that are inside the grid and not an obstacle, hence at most four coordinates.
  The result is a value computed from the grid and the position: the function has no
  state to return.
\<close>

theorem get_neighbors_spec:
  assumes "wf_grid g" and "in_bounds g p"
  shows "get_neighbors g p =
           filter (\<lambda>q. in_bounds g q \<and> cell g q \<noteq> OBSTACLE)
             [(fst p - 1, snd p), (fst p, snd p + 1), (fst p + 1, snd p), (fst p, snd p - 1)]
         \<and> length (get_neighbors g p) \<le> 4"
proof -
  have eq: "get_neighbors g p = filter (free g) (around p)"
    by (rule get_neighbors_filter)
  have "length (filter (free g) (around p)) \<le> length (around p)"
    by (rule length_filter_le)
  then have "length (get_neighbors g p) \<le> 4"
    by (simp add: eq around_def)
  moreover have "free g = (\<lambda>q. in_bounds g q \<and> cell g q \<noteq> OBSTACLE)"
    by (rule ext) (simp add: free_def)
  ultimately show ?thesis
    using eq by (simp add: around_def)
qed

definition demo_grid :: picker where
  "demo_grid = \<lparr> rows = 2, cols = 3,
     grid = [[EMPTY, OBSTACLE, EMPTY], [EMPTY, EMPTY, EMPTY]] \<rparr>"

theorem get_neighbors_spec_witness:
  "wf_grid demo_grid \<and> in_bounds demo_grid (1, 1) \<and>
   get_neighbors demo_grid (1, 1) = [(1, 2), (1, 0)] \<and>
   length (get_neighbors demo_grid (1, 1)) \<le> 4"
proof -
  have w: "wf_grid demo_grid"
    by (simp add: wf_grid_def demo_grid_def)
  have b: "in_bounds demo_grid (1, 1)"
    by (simp add: in_bounds_def demo_grid_def)
  show ?thesis
    using get_neighbors_spec [OF w b] w b
    by (simp add: in_bounds_def cell_def demo_grid_def)
qed


section \<open>The state of a search run\<close>

text \<open>
  A run leaves its \<open>while\<close> loop when the frontier is empty or at the \<open>break\<close> after
  \<open>found_path\<close> is set. Two more ways out are written into the model: a \<open>KeyError\<close> of
  a dictionary read (\<open>g_score[current]\<close>), and a \<open>reconstruct_path\<close> that never returns
  (its \<open>while current in came_from\<close> follows the dictionary and would cycle on a cyclic one).
\<close>

datatype abort = Raised py_error | Hangs

text \<open>
  One record holds the fields of \<open>self\<close> that a run writes (\<open>frontier_cells\<close>,
  \<open>visited_cells\<close>, \<open>stats["nodes_visited"]\<close>, \<open>stats["nodes_explored"]\<close>) and the local
  variables of the five \<open>run_*\<close> methods; each run uses its own locals only. \<open>stack_d\<close> is
  the \<open>stack\<close> of \<open>run_dls\<close>, whose entries carry a depth.

  \<open>generated\<close> and \<open>accepted\<close> are history variables that the source does not have: the
  coordinates placed on the frontier (at each \<open>append\<close> or \<open>heappush\<close>, the start
  included) and the coordinates taken from the frontier and not skipped as already
  visited, both in order of occurrence. No step reads them.
\<close>

record run_state =
  frontier_cells :: "pos set"
  visited_cells :: "pos set"
  nodes_visited :: int
  nodes_explored :: int
  came_from :: "pos \<rightharpoonup> pos"
  found_path :: "pos list option"
  abort :: "abort option"
  visited :: "pos set"
  queue :: "pos list"
  stack :: "pos list"
  stack_d :: "(pos \<times> int) list"
  open_set :: "(int \<times> pos) list"
  closed_set :: "pos set"
  g_score :: "pos \<rightharpoonup> int"
  f_score :: "pos \<rightharpoonup> int"
  generated :: "pos list"
  accepted :: "pos list"

text \<open>The locals before any \<open>run_*\<close> assigns them; \<open>clear_path\<close> has emptied the two sets.\<close>

definition blank :: run_state where
  "blank = \<lparr> frontier_cells = {}, visited_cells = {}, nodes_visited = 0, nodes_explored = 0,
     came_from = Map.empty, found_path = None, abort = None, visited = {}, queue = [],
     stack = [], stack_d = [], open_set = [], closed_set = {}, g_score = Map.empty,
     f_score = Map.empty, generated = [], accepted = [] \<rparr>"

subsection \<open>\<open>heuristic\<close> and \<open>reconstruct_path\<close>\<close>

text \<open>
  \<^verbatim>\<open>
  def heuristic(self, pos1, pos2):
      return abs(pos1[0] - pos2[0]) + abs(pos1[1] - pos2[1])

  def reconstruct_path(self, came_from, current):
      path = [current]
      while current in came_from:
          current = came_from[current]
          path.append(current)
      path.reverse()
      return path
  \<close>
  The \<open>while\<close> loop of \<open>reconstruct_path\<close> need not end, so it is a partial function:
  \<open>None\<close> is the run that never returns.
\<close>

definition heuristic :: "pos \<Rightarrow> pos \<Rightarrow> int" where
  "heuristic pos1 pos2 = \<bar>fst pos1 - fst pos2\<bar> + \<bar>snd pos1 - snd pos2\<bar>"

partial_function (option) walk_back :: "(pos \<rightharpoonup> pos) \<Rightarrow> pos \<Rightarrow> pos list \<Rightarrow> pos list option"
where
  "walk_back cf current path =
     (case cf current of
        None \<Rightarrow> Some path
      | Some previous \<Rightarrow> walk_back cf previous (path @ [previous]))"

declare walk_back.simps [code]

definition reconstruct_path :: "(pos \<rightharpoonup> pos) \<Rightarrow> pos \<Rightarrow> pos list option" where
  "reconstruct_path cf current = map_option rev (walk_back cf current [current])"

text \<open>
  After the loop every run tests \<open>if found_path:\<close>; a path is shown, or the message
  "No path found!" (for \<open>run_dls\<close>: "No path found within depth limit").
\<close>

datatype outcome = PathFound "pos list" | NoPathFound | NoPathWithinLimit int

definition result :: "run_state \<Rightarrow> outcome" where
  "result s = (case found_path s of
                 Some p \<Rightarrow> if p \<noteq> [] then PathFound p else NoPathFound
               | None \<Rightarrow> NoPathFound)"

definition result_dls :: "int \<Rightarrow> run_state \<Rightarrow> outcome" where
  "result_dls depth_limit s =
     (case found_path s of
        Some p \<Rightarrow> if p \<noteq> [] then PathFound p else NoPathWithinLimit depth_limit
      | None \<Rightarrow> NoPathWithinLimit depth_limit)"

text \<open>The goal test of every run: \<open>found_path = self.reconstruct_path(came_from, current)\<close>.\<close>

definition finish :: "pos \<Rightarrow> run_state \<Rightarrow> run_state" where
  "finish current s =
     (case reconstruct_path (came_from s) current of
        Some p \<Rightarrow> s\<lparr>found_path := Some p\<rparr>
      | None \<Rightarrow> s\<lparr>abort := Some Hangs\<rparr>)"

text \<open>The loop goes on while the frontier is not empty and no \<open>break\<close> or abort happened.\<close>

definition going :: "run_state \<Rightarrow> bool" where
  "going s \<longleftrightarrow> found_path s = None \<and> abort s = None"

text \<open>All coordinates of the grid; the set is finite, which bounds every run.\<close>

definition cells :: "'a picker_scheme \<Rightarrow> pos set" where
  "cells g = {0..<rows g} \<times> {0..<cols g}"

lemma finite_cells [simp]: "finite (cells g)"
  by (simp add: cells_def)

lemma in_bounds_cells: "in_bounds g p \<longleftrightarrow> p \<in> cells g"
  by (cases p) (auto simp: in_bounds_def cells_def)

lemma get_neighbors_cells: "n \<in> set (get_neighbors g p) \<Longrightarrow> n \<in> cells g"
  by (simp add: get_neighbors_filter free_def in_bounds_cells)

lemma length_get_neighbors: "length (get_neighbors g p) \<le> 4"
proof -
  have "length (filter (free g) (around p)) \<le> length (around p)"
    by (rule length_filter_le)
  then show ?thesis
    by (simp add: get_neighbors_filter around_def)
qed

lemma going_finish_measure [simp]:
  "queue (finish c s) = queue s" "stack (finish c s) = stack s"
  "stack_d (finish c s) = stack_d s" "open_set (finish c s) = open_set s"
  "visited (finish c s) = visited s" "visited_cells (finish c s) = visited_cells s"
  "closed_set (finish c s) = closed_set s"
  by (simp_all add: finish_def split: option.splits)

section \<open>Breadth-first search\<close>

text \<open>
  \<^verbatim>\<open>
  queue = deque([self.start_pos]); self.frontier_cells.add(self.start_pos)
  visited = set([self.start_pos]); came_from = {}
  self.stats["nodes_visited"] = 0; self.stats["nodes_explored"] = 1
  found_path = None
  while queue:
      current = queue.popleft()
      self.frontier_cells.discard(current)
      self.stats["nodes_visited"] += 1
      if current == self.goal_pos:
          found_path = self.reconstruct_path(came_from, current)
          break
      for neighbor in self.get_neighbors(current):
          if neighbor not in visited:
              visited.add(neighbor); came_from[neighbor] = current
              queue.append(neighbor); self.frontier_cells.add(neighbor)
              self.stats["nodes_explored"] += 1
  \<close>
\<close>

definition bfs_init :: "pos \<Rightarrow> run_state" where
  "bfs_init start = blank\<lparr> queue := [start], frontier_cells := {start}, visited := {start},
     came_from := Map.empty, nodes_visited := 0, nodes_explored := 1, found_path := None,
     generated := [start] \<rparr>"

definition bfs_neighbor :: "pos \<Rightarrow> pos \<Rightarrow> run_state \<Rightarrow> run_state" where
  "bfs_neighbor current neighbor s =
     (if neighbor \<notin> visited s
      then s\<lparr> visited := insert neighbor (visited s),
              came_from := (came_from s)(neighbor \<mapsto> current),
              queue := queue s @ [neighbor],
              frontier_cells := insert neighbor (frontier_cells s),
              nodes_explored := nodes_explored s + 1,
              generated := generated s @ [neighbor] \<rparr>
      else s)"

definition bfs_step :: "'a picker_scheme \<Rightarrow> pos \<Rightarrow> run_state \<Rightarrow> run_state" where
  "bfs_step g goal s =
     (case queue s of
        [] \<Rightarrow> s
      | current # rest \<Rightarrow>
          let s1 = s\<lparr> queue := rest, frontier_cells := frontier_cells s - {current},
                      nodes_visited := nodes_visited s + 1,
                      accepted := accepted s @ [current] \<rparr>
          in if current = goal then finish current s1
             else fold (bfs_neighbor current) (get_neighbors g current) s1)"

definition bfs_measure :: "'a picker_scheme \<Rightarrow> run_state \<Rightarrow> nat" where
  "bfs_measure g s = 2 * card (cells g - visited s) + length (queue s)"

lemma bfs_neighbor_measure:
  assumes "n \<in> cells g"
  shows "bfs_measure g (bfs_neighbor c n s) \<le> bfs_measure g s"
proof (cases "n \<in> visited s")
  case True
  then show ?thesis by (simp add: bfs_neighbor_def)
next
  case False
  have fin: "finite (cells g - visited s)" by simp
  have mem: "n \<in> cells g - visited s" using assms False by simp
  have "cells g - insert n (visited s) = (cells g - visited s) - {n}" by auto
  then have "card (cells g - insert n (visited s)) = card (cells g - visited s) - 1"
    using fin mem by simp
  moreover have "0 < card (cells g - visited s)"
    using fin mem by (auto simp: card_gt_0_iff)
  ultimately show ?thesis
    using False by (simp add: bfs_neighbor_def bfs_measure_def)
qed

lemma bfs_fold_measure:
  "set ns \<subseteq> cells g \<Longrightarrow> bfs_measure g (fold (bfs_neighbor c) ns s) \<le> bfs_measure g s"
proof (induction ns arbitrary: s)
  case Nil
  then show ?case by simp
next
  case (Cons n ns)
  have "bfs_measure g (fold (bfs_neighbor c) ns (bfs_neighbor c n s))
          \<le> bfs_measure g (bfs_neighbor c n s)"
    using Cons by simp
  also have "\<dots> \<le> bfs_measure g s"
    using Cons.prems by (simp add: bfs_neighbor_measure)
  finally show ?case by simp
qed

lemma bfs_step_measure:
  assumes "queue s \<noteq> []"
  shows "bfs_measure g (bfs_step g goal s) < bfs_measure g s"
proof -
  obtain current rest where q: "queue s = current # rest"
    using assms by (cases "queue s") auto
  define s1 where "s1 = s\<lparr> queue := rest, frontier_cells := frontier_cells s - {current},
    nodes_visited := nodes_visited s + 1, accepted := accepted s @ [current] \<rparr>"
  have m1: "bfs_measure g s1 < bfs_measure g s"
    by (simp add: s1_def bfs_measure_def q)
  show ?thesis
  proof (cases "current = goal")
    case True
    then have "bfs_step g goal s = finish current s1"
      by (simp add: bfs_step_def q s1_def)
    then show ?thesis using m1 by (simp add: bfs_measure_def)
  next
    case False
    then have "bfs_step g goal s = fold (bfs_neighbor current) (get_neighbors g current) s1"
      by (simp add: bfs_step_def q s1_def)
    moreover have "set (get_neighbors g current) \<subseteq> cells g"
      using get_neighbors_cells by blast
    ultimately show ?thesis
      using bfs_fold_measure [of "get_neighbors g current" g current s1] m1 by simp
  qed
qed

function bfs_loop :: "'a picker_scheme \<Rightarrow> pos \<Rightarrow> run_state \<Rightarrow> run_state" where
  "bfs_loop g goal s =
     (if queue s \<noteq> [] \<and> going s then bfs_loop g goal (bfs_step g goal s) else s)"
  by pat_completeness auto
termination
  by (relation "measure (\<lambda>(g, goal, s). bfs_measure g s)") (auto simp: bfs_step_measure)

declare bfs_loop.simps [simp del]

lemma bfs_loop_stop:
  "\<not> (queue s \<noteq> [] \<and> going s) \<Longrightarrow> bfs_loop g goal s = s"
  by (subst bfs_loop.simps) auto

lemma bfs_loop_go:
  "queue s \<noteq> [] \<Longrightarrow> going s \<Longrightarrow>
     bfs_loop g goal s = bfs_loop g goal (bfs_step g goal s)"
  by (subst bfs_loop.simps) simp

definition run_bfs :: "'a picker_scheme \<Rightarrow> pos \<Rightarrow> pos \<Rightarrow> run_state" where
  "run_bfs g start goal = bfs_loop g goal (bfs_init start)"

section \<open>Depth-first search\<close>

text \<open>
  \<^verbatim>\<open>
  stack = [self.start_pos]; self.frontier_cells.add(self.start_pos)
  visited = set(); came_from = {}
  self.stats["nodes_visited"] = 0; self.stats["nodes_explored"] = 1
  found_path = None
  while stack:
      current = stack.pop()
      self.frontier_cells.discard(current)
      if current in visited:
          continue
      visited.add(current)
      self.stats["nodes_visited"] += 1
      if current == self.goal_pos:
          found_path = self.reconstruct_path(came_from, current)
          break
      neighbors = self.get_neighbors(current)
      for neighbor in reversed(neighbors):
          if neighbor not in visited:
              came_from[neighbor] = current
              stack.append(neighbor); self.frontier_cells.add(neighbor)
              self.stats["nodes_explored"] += 1
  \<close>
  The stack is the Python list: \<open>append\<close> adds at the end and \<open>pop\<close> takes the last
  element.
\<close>

definition dfs_init :: "pos \<Rightarrow> run_state" where
  "dfs_init start = blank\<lparr> stack := [start], frontier_cells := {start}, visited := {},
     came_from := Map.empty, nodes_visited := 0, nodes_explored := 1, found_path := None,
     generated := [start] \<rparr>"

definition dfs_neighbor :: "pos \<Rightarrow> pos \<Rightarrow> run_state \<Rightarrow> run_state" where
  "dfs_neighbor current neighbor s =
     (if neighbor \<notin> visited s
      then s\<lparr> came_from := (came_from s)(neighbor \<mapsto> current),
              stack := stack s @ [neighbor],
              frontier_cells := insert neighbor (frontier_cells s),
              nodes_explored := nodes_explored s + 1,
              generated := generated s @ [neighbor] \<rparr>
      else s)"

definition dfs_step :: "'a picker_scheme \<Rightarrow> pos \<Rightarrow> run_state \<Rightarrow> run_state" where
  "dfs_step g goal s =
     (if stack s = [] then s
      else
        let current = last (stack s);
            s1 = s\<lparr> stack := butlast (stack s),
                    frontier_cells := frontier_cells s - {current} \<rparr>
        in if current \<in> visited s1 then s1
           else
             let s2 = s1\<lparr> visited := insert current (visited s1),
                          nodes_visited := nodes_visited s1 + 1,
                          accepted := accepted s1 @ [current] \<rparr>
             in if current = goal then finish current s2
                else fold (dfs_neighbor current) (rev (get_neighbors g current)) s2)"

text \<open>
  What the \<open>for\<close> loop of the depth-first run does to each variable: \<open>visited\<close> does not
  change inside it, so the neighbours pushed are those not visited before the loop.
\<close>

lemma dfs_fold_visited [simp]: "visited (fold (dfs_neighbor c) ns s) = visited s"
  by (induction ns arbitrary: s) (simp_all add: dfs_neighbor_def)

lemma dfs_fold_stack:
  "stack (fold (dfs_neighbor c) ns s) = stack s @ filter (\<lambda>n. n \<notin> visited s) ns"
  by (induction ns arbitrary: s) (simp_all add: dfs_neighbor_def)

lemma dfs_fold_found [simp]:
  "found_path (fold (dfs_neighbor c) ns s) = found_path s"
  "abort (fold (dfs_neighbor c) ns s) = abort s"
  by (induction ns arbitrary: s) (simp_all add: dfs_neighbor_def)

text \<open>
  The measure of the lazy runs (depth-first, depth-limited, uniform-cost): five times the
  number of coordinates of the grid or of the frontier that are not yet visited, plus the
  length of the frontier. An accepted pop visits one coordinate and pushes at most four.
\<close>

definition lazy_measure :: "'a picker_scheme \<Rightarrow> pos list \<Rightarrow> pos set \<Rightarrow> nat" where
  "lazy_measure g frontier vis = 5 * card ((cells g \<union> set frontier) - vis) + length frontier"

lemma lazy_measure_skip:
  assumes "frontier \<noteq> []"
  shows "lazy_measure g (butlast frontier) vis < lazy_measure g frontier vis"
proof -
  have "(cells g \<union> set (butlast frontier)) - vis \<subseteq> (cells g \<union> set frontier) - vis"
    using in_set_butlastD by fastforce
  then have "card ((cells g \<union> set (butlast frontier)) - vis)
               \<le> card ((cells g \<union> set frontier) - vis)"
    by (intro card_mono) simp_all
  moreover have "length (butlast frontier) < length frontier"
    using assms by simp
  ultimately show ?thesis
    unfolding lazy_measure_def by linarith
qed

lemma lazy_measure_accept:
  assumes c: "c \<in> set frontier" "c \<notin> vis"
    and sub: "set frontier' \<subseteq> set frontier \<union> cells g"
    and len: "length frontier' + 1 \<le> length frontier + 4"
  shows "lazy_measure g frontier' (insert c vis) < lazy_measure g frontier vis"
proof -
  let ?X = "(cells g \<union> set frontier) - vis"
  let ?X' = "(cells g \<union> set frontier') - insert c vis"
  have fin: "finite ?X" by simp
  have "?X' \<subseteq> ?X - {c}" using sub by auto
  moreover have "c \<in> ?X" using c by simp
  ultimately have "?X' \<subset> ?X" by auto
  then have "card ?X' < card ?X"
    using fin by (rule psubset_card_mono [rotated])
  then show ?thesis
    using len unfolding lazy_measure_def by linarith
qed

lemma dfs_step_measure:
  assumes "stack s \<noteq> []"
  shows "lazy_measure g (stack (dfs_step g goal s)) (visited (dfs_step g goal s))
           < lazy_measure g (stack s) (visited s)"
proof -
  let ?c = "last (stack s)"
  let ?ns = "filter (\<lambda>n. n \<notin> insert ?c (visited s)) (rev (get_neighbors g ?c))"
  have cin: "?c \<in> set (stack s)" using assms by simp
  show ?thesis
  proof (cases "?c \<in> visited s")
    case True
    then show ?thesis
      using assms lazy_measure_skip [OF assms, of g "visited s"]
      by (simp add: dfs_step_def Let_def)
  next
    case False
    show ?thesis
    proof (cases "?c = goal")
      case True
      have "lazy_measure g (butlast (stack s)) (insert ?c (visited s))
              < lazy_measure g (stack s) (visited s)"
        using cin False in_set_butlastD
        by (intro lazy_measure_accept) (auto simp: subset_iff)
      then show ?thesis
        using assms False True by (simp add: dfs_step_def Let_def)
    next
      case ng: False
      have "length ?ns \<le> length (rev (get_neighbors g ?c))"
        by (rule length_filter_le)
      then have len: "length ?ns \<le> 4"
        using length_get_neighbors [of g ?c] by simp
      have sub: "set ?ns \<subseteq> cells g"
        by (auto dest: get_neighbors_cells)
      have "lazy_measure g (butlast (stack s) @ ?ns) (insert ?c (visited s))
              < lazy_measure g (stack s) (visited s)"
      proof (rule lazy_measure_accept [OF cin False])
        show "set (butlast (stack s) @ ?ns) \<subseteq> set (stack s) \<union> cells g"
          using sub in_set_butlastD by fastforce
        have "length (butlast (stack s)) + 1 = length (stack s)"
          using assms by (cases "stack s" rule: rev_cases) simp_all
        then show "length (butlast (stack s) @ ?ns) + 1 \<le> length (stack s) + 4"
          using len unfolding length_append by linarith
      qed
      then show ?thesis
        using assms False ng by (simp add: dfs_step_def Let_def dfs_fold_stack)
    qed
  qed
qed

function dfs_loop :: "'a picker_scheme \<Rightarrow> pos \<Rightarrow> run_state \<Rightarrow> run_state" where
  "dfs_loop g goal s =
     (if stack s \<noteq> [] \<and> going s then dfs_loop g goal (dfs_step g goal s) else s)"
  by pat_completeness auto
termination
  by (relation "measure (\<lambda>(g, goal, s). lazy_measure g (stack s) (visited s))")
     (auto simp: dfs_step_measure)

declare dfs_loop.simps [simp del]

lemma dfs_loop_stop:
  "\<not> (stack s \<noteq> [] \<and> going s) \<Longrightarrow> dfs_loop g goal s = s"
  by (subst dfs_loop.simps) auto

lemma dfs_loop_go:
  "stack s \<noteq> [] \<Longrightarrow> going s \<Longrightarrow>
     dfs_loop g goal s = dfs_loop g goal (dfs_step g goal s)"
  by (subst dfs_loop.simps) simp

definition run_dfs :: "'a picker_scheme \<Rightarrow> pos \<Rightarrow> pos \<Rightarrow> run_state" where
  "run_dfs g start goal = dfs_loop g goal (dfs_init start)"

section \<open>Depth-limited search\<close>

text \<open>
  \<^verbatim>\<open>
  depth_limit = self.depth_limit_var.get()
  stack = [(self.start_pos, 0)]; self.frontier_cells.add(self.start_pos)
  visited = set(); came_from = {}
  self.stats["nodes_visited"] = 0; self.stats["nodes_explored"] = 1
  found_path = None
  while stack:
      current, depth = stack.pop()
      self.frontier_cells.discard(current)
      if current in visited:
          continue
      visited.add(current)
      self.stats["nodes_visited"] += 1
      if current == self.goal_pos:
          found_path = self.reconstruct_path(came_from, current)
          break
      if depth >= depth_limit:
          continue
      neighbors = self.get_neighbors(current)
      for neighbor in reversed(neighbors):
          if neighbor not in visited:
              came_from[neighbor] = current
              stack.append((neighbor, depth + 1)); self.frontier_cells.add(neighbor)
              self.stats["nodes_explored"] += 1
  \<close>
\<close>

definition dls_init :: "pos \<Rightarrow> run_state" where
  "dls_init start = blank\<lparr> stack_d := [(start, 0)], frontier_cells := {start}, visited := {},
     came_from := Map.empty, nodes_visited := 0, nodes_explored := 1, found_path := None,
     generated := [start] \<rparr>"

definition dls_neighbor :: "pos \<Rightarrow> int \<Rightarrow> pos \<Rightarrow> run_state \<Rightarrow> run_state" where
  "dls_neighbor current depth neighbor s =
     (if neighbor \<notin> visited s
      then s\<lparr> came_from := (came_from s)(neighbor \<mapsto> current),
              stack_d := stack_d s @ [(neighbor, depth + 1)],
              frontier_cells := insert neighbor (frontier_cells s),
              nodes_explored := nodes_explored s + 1,
              generated := generated s @ [neighbor] \<rparr>
      else s)"

definition dls_step :: "'a picker_scheme \<Rightarrow> pos \<Rightarrow> int \<Rightarrow> run_state \<Rightarrow> run_state" where
  "dls_step g goal depth_limit s =
     (if stack_d s = [] then s
      else
        let current = fst (last (stack_d s));
            depth = snd (last (stack_d s));
            s1 = s\<lparr> stack_d := butlast (stack_d s),
                    frontier_cells := frontier_cells s - {current} \<rparr>
        in if current \<in> visited s1 then s1
           else
             let s2 = s1\<lparr> visited := insert current (visited s1),
                          nodes_visited := nodes_visited s1 + 1,
                          accepted := accepted s1 @ [current] \<rparr>
             in if current = goal then finish current s2
                else if depth \<ge> depth_limit then s2
                else fold (dls_neighbor current depth) (rev (get_neighbors g current)) s2)"

lemma dls_fold_visited [simp]: "visited (fold (dls_neighbor c d) ns s) = visited s"
  by (induction ns arbitrary: s) (simp_all add: dls_neighbor_def)

lemma dls_fold_stack:
  "stack_d (fold (dls_neighbor c d) ns s) =
     stack_d s @ map (\<lambda>n. (n, d + 1)) (filter (\<lambda>n. n \<notin> visited s) ns)"
  by (induction ns arbitrary: s) (simp_all add: dls_neighbor_def)

lemma dls_fold_found [simp]:
  "found_path (fold (dls_neighbor c d) ns s) = found_path s"
  "abort (fold (dls_neighbor c d) ns s) = abort s"
  by (induction ns arbitrary: s) (simp_all add: dls_neighbor_def)

lemma lazy_measure_drop:
  assumes "set frontier' \<subseteq> set frontier \<union> cells g"
    and "length frontier' < length frontier"
  shows "lazy_measure g frontier' vis < lazy_measure g frontier vis"
proof -
  have "(cells g \<union> set frontier') - vis \<subseteq> (cells g \<union> set frontier) - vis"
    using assms(1) by auto
  then have "card ((cells g \<union> set frontier') - vis) \<le> card ((cells g \<union> set frontier) - vis)"
    by (intro card_mono) simp_all
  then show ?thesis
    using assms(2) unfolding lazy_measure_def by linarith
qed

definition dls_measure :: "'a picker_scheme \<Rightarrow> run_state \<Rightarrow> nat" where
  "dls_measure g s = lazy_measure g (map fst (stack_d s)) (visited s)"

lemma dls_step_measure:
  assumes "stack_d s \<noteq> []"
  shows "dls_measure g (dls_step g goal depth_limit s) < dls_measure g s"
proof -
  let ?c = "fst (last (stack_d s))"
  let ?d = "snd (last (stack_d s))"
  let ?f = "map fst (stack_d s)"
  let ?ns = "filter (\<lambda>n. n \<notin> insert ?c (visited s)) (rev (get_neighbors g ?c))"
  have cin: "?c \<in> set ?f" using assms by simp
  have bl: "set (map fst (butlast (stack_d s))) \<subseteq> set ?f"
    by (auto dest: in_set_butlastD)
  have lb: "length (map fst (butlast (stack_d s))) + 1 = length ?f"
    using assms by (cases "stack_d s" rule: rev_cases) simp_all
  show ?thesis
  proof (cases "?c \<in> visited s")
    case True
    have "lazy_measure g (map fst (butlast (stack_d s))) (visited s)
            < lazy_measure g ?f (visited s)"
      using bl lb by (intro lazy_measure_drop) auto
    then show ?thesis
      using assms True by (simp add: dls_step_def dls_measure_def Let_def)
  next
    case False
    have pop: "lazy_measure g (map fst (butlast (stack_d s))) (insert ?c (visited s))
                 < lazy_measure g ?f (visited s)"
      using bl lb by (intro lazy_measure_accept [OF cin False]) auto
    show ?thesis
    proof (cases "?c = goal \<or> ?d \<ge> depth_limit")
      case True
      then show ?thesis
        using assms False pop by (auto simp: dls_step_def dls_measure_def Let_def)
    next
      case ng: False
      have "length ?ns \<le> length (rev (get_neighbors g ?c))"
        by (rule length_filter_le)
      then have len: "length ?ns \<le> 4"
        using length_get_neighbors [of g ?c] by simp
      have sub: "set ?ns \<subseteq> cells g"
        by (auto dest: get_neighbors_cells)
      let ?f' = "map fst (butlast (stack_d s) @ map (\<lambda>n. (n, ?d + 1)) ?ns)"
      have "lazy_measure g ?f' (insert ?c (visited s)) < lazy_measure g ?f (visited s)"
      proof (rule lazy_measure_accept [OF cin False])
        show "set ?f' \<subseteq> set ?f \<union> cells g"
          using sub bl by (auto simp: image_iff)
        have "length ?f' = length (map fst (butlast (stack_d s))) + length ?ns"
          by simp
        then show "length ?f' + 1 \<le> length ?f + 4"
          using len lb by linarith
      qed
      then show ?thesis
        using assms False ng by (simp add: dls_step_def dls_measure_def Let_def dls_fold_stack)
    qed
  qed
qed

function dls_loop :: "'a picker_scheme \<Rightarrow> pos \<Rightarrow> int \<Rightarrow> run_state \<Rightarrow> run_state" where
  "dls_loop g goal depth_limit s =
     (if stack_d s \<noteq> [] \<and> going s
      then dls_loop g goal depth_limit (dls_step g goal depth_limit s) else s)"
  by pat_completeness auto
termination
  by (relation "measure (\<lambda>(g, goal, depth_limit, s). dls_measure g s)")
     (auto simp: dls_step_measure)

declare dls_loop.simps [simp del]

lemma dls_loop_stop:
  "\<not> (stack_d s \<noteq> [] \<and> going s) \<Longrightarrow> dls_loop g goal depth_limit s = s"
  by (subst dls_loop.simps) auto

lemma dls_loop_go:
  "stack_d s \<noteq> [] \<Longrightarrow> going s \<Longrightarrow>
     dls_loop g goal depth_limit s = dls_loop g goal depth_limit (dls_step g goal depth_limit s)"
  by (subst dls_loop.simps) simp

definition run_dls :: "'a picker_scheme \<Rightarrow> pos \<Rightarrow> pos \<Rightarrow> int \<Rightarrow> run_state" where
  "run_dls g start goal depth_limit = dls_loop g goal depth_limit (dls_init start)"

section \<open>The priority queue\<close>

text \<open>
  \<open>open_set\<close> is a Python list kept as a binary heap by \<open>heapq\<close>. The runs use it
  through \<open>heappush\<close>, \<open>heappop\<close>, the emptiness test \<open>while open_set\<close> and the membership
  test \<open>neighbor in [item[1] for item in open_set]\<close> only. \<open>heappop\<close> returns the least
  entry, and entries are tuples \<open>(priority, (row, col))\<close> compared lexicographically, which
  is the order of \<open>int \<times> int \<times> int\<close> here; equal entries cannot be told apart. So the
  model keeps the entries as a list, pushes at the end, and pops the least entry.
\<close>

definition heap_min :: "(int \<times> pos) list \<Rightarrow> int \<times> pos" where
  "heap_min h = fold min (tl h) (hd h)"

definition heappush :: "(int \<times> pos) list \<Rightarrow> int \<times> pos \<Rightarrow> (int \<times> pos) list" where
  "heappush h item = h @ [item]"

definition heappop :: "(int \<times> pos) list \<Rightarrow> (int \<times> pos) \<times> (int \<times> pos) list" where
  "heappop h = (heap_min h, remove1 (heap_min h) h)"

lemma heap_min_Min: "h \<noteq> [] \<Longrightarrow> heap_min h = Min (set h)"
  by (cases h) (simp_all add: heap_min_def Min.set_eq_fold [symmetric])

lemma heap_min_in: "h \<noteq> [] \<Longrightarrow> heap_min h \<in> set h"
  by (simp add: heap_min_Min)

lemma heap_min_le: "x \<in> set h \<Longrightarrow> heap_min h \<le> x"
  by (cases "h = []") (simp_all add: heap_min_Min)

lemma length_heappop: "h \<noteq> [] \<Longrightarrow> length (snd (heappop h)) + 1 = length h"
proof -
  assume "h \<noteq> []"
  then have "heap_min h \<in> set h" and "0 < length h"
    by (simp_all add: heap_min_in)
  then show ?thesis
    by (simp add: heappop_def length_remove1)
qed

lemma set_heappop: "set (snd (heappop h)) \<subseteq> set h"
  by (simp add: heappop_def set_remove1_subset)

section \<open>Uniform-cost search\<close>

text \<open>
  \<^verbatim>\<open>
  open_set = []; heapq.heappush(open_set, (0, self.start_pos))
  self.frontier_cells.add(self.start_pos)
  came_from = {}; g_score = {self.start_pos: 0}
  self.visited_cells = set()
  self.stats["nodes_visited"] = 0; self.stats["nodes_explored"] = 1
  found_path = None
  while open_set:
      current_cost, current = heapq.heappop(open_set)
      self.frontier_cells.discard(current)
      if current in self.visited_cells:
          continue
      self.visited_cells.add(current)
      self.stats["nodes_visited"] += 1
      if current == self.goal_pos:
          found_path = self.reconstruct_path(came_from, current)
          break
      for neighbor in self.get_neighbors(current):
          if neighbor in self.visited_cells:
              continue
          tentative_g_score = g_score[current] + 1
          if neighbor not in g_score or tentative_g_score < g_score[neighbor]:
              came_from[neighbor] = current
              g_score[neighbor] = tentative_g_score
              heapq.heappush(open_set, (tentative_g_score, neighbor))
              self.frontier_cells.add(neighbor)
              self.stats["nodes_explored"] += 1
  \<close>
  A \<open>KeyError\<close> of \<open>g_score[current]\<close> leaves the \<open>for\<close> loop and the run: once \<open>abort\<close>
  is set the remaining neighbours are not processed.
\<close>

definition ucs_init :: "pos \<Rightarrow> run_state" where
  "ucs_init start = blank\<lparr> open_set := heappush [] (0, start), frontier_cells := {start},
     came_from := Map.empty, g_score := [start \<mapsto> 0], visited_cells := {},
     nodes_visited := 0, nodes_explored := 1, found_path := None, generated := [start] \<rparr>"

definition ucs_neighbor :: "pos \<Rightarrow> pos \<Rightarrow> run_state \<Rightarrow> run_state" where
  "ucs_neighbor current neighbor s =
     (if abort s \<noteq> None then s
      else if neighbor \<in> visited_cells s then s
      else
        case g_score s current of
          None \<Rightarrow> s\<lparr> abort := Some (Raised KeyError) \<rparr>
        | Some g_current \<Rightarrow>
            let tentative_g_score = g_current + 1 in
            if (case g_score s neighbor of
                  None \<Rightarrow> True
                | Some g_neighbor \<Rightarrow> tentative_g_score < g_neighbor)
            then s\<lparr> came_from := (came_from s)(neighbor \<mapsto> current),
                    g_score := (g_score s)(neighbor \<mapsto> tentative_g_score),
                    open_set := heappush (open_set s) (tentative_g_score, neighbor),
                    frontier_cells := insert neighbor (frontier_cells s),
                    nodes_explored := nodes_explored s + 1,
                    generated := generated s @ [neighbor] \<rparr>
            else s)"

definition ucs_step :: "'a picker_scheme \<Rightarrow> pos \<Rightarrow> run_state \<Rightarrow> run_state" where
  "ucs_step g goal s =
     (if open_set s = [] then s
      else
        let item = fst (heappop (open_set s));
            current = snd item;
            s1 = s\<lparr> open_set := snd (heappop (open_set s)),
                    frontier_cells := frontier_cells s - {current} \<rparr>
        in if current \<in> visited_cells s1 then s1
           else
             let s2 = s1\<lparr> visited_cells := insert current (visited_cells s1),
                          nodes_visited := nodes_visited s1 + 1,
                          accepted := accepted s1 @ [current] \<rparr>
             in if current = goal then finish current s2
                else fold (ucs_neighbor current) (get_neighbors g current) s2)"

lemma ucs_fold_visited [simp]:
  "visited_cells (fold (ucs_neighbor c) ns s) = visited_cells s"
  by (induction ns arbitrary: s)
     (simp_all add: ucs_neighbor_def Let_def split: option.splits)

lemma ucs_fold_found [simp]: "found_path (fold (ucs_neighbor c) ns s) = found_path s"
  by (induction ns arbitrary: s)
     (simp_all add: ucs_neighbor_def Let_def split: option.splits)

lemma ucs_neighbor_open:
  "set (map snd (open_set (ucs_neighbor c n s))) \<subseteq> insert n (set (map snd (open_set s))) \<and>
   length (open_set (ucs_neighbor c n s)) \<le> length (open_set s) + 1"
  by (auto simp: ucs_neighbor_def Let_def heappush_def split: option.splits)

lemma ucs_fold_open:
  "set (map snd (open_set (fold (ucs_neighbor c) ns s))) \<subseteq> set (map snd (open_set s)) \<union> set ns \<and>
   length (open_set (fold (ucs_neighbor c) ns s)) \<le> length (open_set s) + length ns"
proof (induction ns arbitrary: s)
  case Nil
  then show ?case by simp
next
  case (Cons n ns)
  show ?case
    using Cons.IH [of "ucs_neighbor c n s"] ucs_neighbor_open [of c n s]
    by (simp add: subset_iff) (meson add_le_cancel_right le_trans insertE nat_add_left_cancel_le)
qed

definition ucs_measure :: "'a picker_scheme \<Rightarrow> run_state \<Rightarrow> nat" where
  "ucs_measure g s = lazy_measure g (map snd (open_set s)) (visited_cells s)"

lemma ucs_step_measure:
  assumes "open_set s \<noteq> []"
  shows "ucs_measure g (ucs_step g goal s) < ucs_measure g s"
proof -
  let ?c = "snd (fst (heappop (open_set s)))"
  let ?rest = "snd (heappop (open_set s))"
  let ?f = "map snd (open_set s)"
  have cin: "?c \<in> set ?f"
    using heap_min_in [OF assms] by (simp add: heappop_def)
  have bl: "set (map snd ?rest) \<subseteq> set ?f"
    using set_heappop [of "open_set s"] by auto
  have lb: "length (map snd ?rest) + 1 = length ?f"
    using length_heappop [OF assms] by simp
  show ?thesis
  proof (cases "?c \<in> visited_cells s")
    case True
    have "lazy_measure g (map snd ?rest) (visited_cells s) < lazy_measure g ?f (visited_cells s)"
      using bl lb by (intro lazy_measure_drop) auto
    then show ?thesis
      using assms True by (simp add: ucs_step_def ucs_measure_def Let_def)
  next
    case False
    show ?thesis
    proof (cases "?c = goal")
      case True
      have "lazy_measure g (map snd ?rest) (insert ?c (visited_cells s))
              < lazy_measure g ?f (visited_cells s)"
        using bl lb by (intro lazy_measure_accept [OF cin False]) auto
      then show ?thesis
        using assms False True by (simp add: ucs_step_def ucs_measure_def Let_def)
    next
      case ng: False
      define s2 where "s2 = s\<lparr> open_set := ?rest, frontier_cells := frontier_cells s - {?c},
        visited_cells := insert ?c (visited_cells s), nodes_visited := nodes_visited s + 1,
        accepted := accepted s @ [?c] \<rparr>"
      define s3 where "s3 = fold (ucs_neighbor ?c) (get_neighbors g ?c) s2"
      have step: "ucs_step g goal s = s3"
        using assms False ng by (simp add: ucs_step_def Let_def s3_def s2_def)
      have o: "set (map snd (open_set s3)) \<subseteq> set (map snd ?rest) \<union> set (get_neighbors g ?c)"
        and l: "length (open_set s3) \<le> length ?rest + length (get_neighbors g ?c)"
        using ucs_fold_open [of ?c "get_neighbors g ?c" s2] by (simp_all add: s3_def s2_def)
      have "lazy_measure g (map snd (open_set s3)) (insert ?c (visited_cells s))
              < lazy_measure g ?f (visited_cells s)"
      proof (rule lazy_measure_accept [OF cin False])
        show "set (map snd (open_set s3)) \<subseteq> set ?f \<union> cells g"
          using o bl get_neighbors_cells [of _ g ?c] by blast
        show "length (map snd (open_set s3)) + 1 \<le> length ?f + 4"
          using l lb length_get_neighbors [of g ?c] by simp
      qed
      moreover have "visited_cells s3 = insert ?c (visited_cells s)"
        by (simp add: s3_def s2_def)
      ultimately show ?thesis
        by (simp add: step ucs_measure_def)
    qed
  qed
qed

function ucs_loop :: "'a picker_scheme \<Rightarrow> pos \<Rightarrow> run_state \<Rightarrow> run_state" where
  "ucs_loop g goal s =
     (if open_set s \<noteq> [] \<and> going s then ucs_loop g goal (ucs_step g goal s) else s)"
  by pat_completeness auto
termination
  by (relation "measure (\<lambda>(g, goal, s). ucs_measure g s)") (auto simp: ucs_step_measure)

declare ucs_loop.simps [simp del]

lemma ucs_loop_stop:
  "\<not> (open_set s \<noteq> [] \<and> going s) \<Longrightarrow> ucs_loop g goal s = s"
  by (subst ucs_loop.simps) auto

lemma ucs_loop_go:
  "open_set s \<noteq> [] \<Longrightarrow> going s \<Longrightarrow>
     ucs_loop g goal s = ucs_loop g goal (ucs_step g goal s)"
  by (subst ucs_loop.simps) simp

definition run_ucs :: "'a picker_scheme \<Rightarrow> pos \<Rightarrow> pos \<Rightarrow> run_state" where
  "run_ucs g start goal = ucs_loop g goal (ucs_init start)"

section \<open>A* search\<close>

text \<open>
  \<^verbatim>\<open>
  open_set = []; closed_set = set()
  heapq.heappush(open_set, (0, self.start_pos))
  self.frontier_cells.add(self.start_pos)
  came_from = {}
  g_score = {self.start_pos: 0}
  f_score = {self.start_pos: self.heuristic(self.start_pos, self.goal_pos)}
  self.visited_cells = set()
  self.stats["nodes_visited"] = 0; self.stats["nodes_explored"] = 0
  found_path = None
  while open_set:
      current = heapq.heappop(open_set)[1]
      self.frontier_cells.discard(current)
      if current == self.goal_pos:
          found_path = self.reconstruct_path(came_from, current)
          break
      closed_set.add(current)
      self.visited_cells.add(current)
      self.stats["nodes_visited"] += 1
      for neighbor in self.get_neighbors(current):
          if neighbor in closed_set:
              continue
          tentative_g_score = g_score[current] + 1
          if neighbor not in g_score or tentative_g_score < g_score[neighbor]:
              came_from[neighbor] = current
              g_score[neighbor] = tentative_g_score
              f_score[neighbor] = tentative_g_score + self.heuristic(neighbor, self.goal_pos)
              if neighbor not in [item[1] for item in open_set]:
                  heapq.heappush(open_set, (f_score[neighbor], neighbor))
                  self.frontier_cells.add(neighbor)
                  self.stats["nodes_explored"] += 1
  \<close>
  The value pushed, \<open>f_score[neighbor]\<close>, is the one assigned on the line before.
  Every coordinate popped is accepted (the loop has no \<open>continue\<close> at the pop), so the
  history variable \<open>accepted\<close> records it before the goal test.
\<close>

definition astar_init :: "pos \<Rightarrow> pos \<Rightarrow> run_state" where
  "astar_init start goal = blank\<lparr> open_set := heappush [] (0, start), closed_set := {},
     frontier_cells := {start}, came_from := Map.empty, g_score := [start \<mapsto> 0],
     f_score := [start \<mapsto> heuristic start goal], visited_cells := {},
     nodes_visited := 0, nodes_explored := 0, found_path := None, generated := [start] \<rparr>"

definition astar_neighbor :: "pos \<Rightarrow> pos \<Rightarrow> pos \<Rightarrow> run_state \<Rightarrow> run_state" where
  "astar_neighbor goal current neighbor s =
     (if abort s \<noteq> None then s
      else if neighbor \<in> closed_set s then s
      else
        case g_score s current of
          None \<Rightarrow> s\<lparr> abort := Some (Raised KeyError) \<rparr>
        | Some g_current \<Rightarrow>
            let tentative_g_score = g_current + 1 in
            if (case g_score s neighbor of
                  None \<Rightarrow> True
                | Some g_neighbor \<Rightarrow> tentative_g_score < g_neighbor)
            then
              let f_neighbor = tentative_g_score + heuristic neighbor goal;
                  s1 = s\<lparr> came_from := (came_from s)(neighbor \<mapsto> current),
                          g_score := (g_score s)(neighbor \<mapsto> tentative_g_score),
                          f_score := (f_score s)(neighbor \<mapsto> f_neighbor) \<rparr>
              in if neighbor \<notin> set (map snd (open_set s1))
                 then s1\<lparr> open_set := heappush (open_set s1) (f_neighbor, neighbor),
                          frontier_cells := insert neighbor (frontier_cells s1),
                          nodes_explored := nodes_explored s1 + 1,
                          generated := generated s1 @ [neighbor] \<rparr>
                 else s1
            else s)"

definition astar_step :: "'a picker_scheme \<Rightarrow> pos \<Rightarrow> run_state \<Rightarrow> run_state" where
  "astar_step g goal s =
     (if open_set s = [] then s
      else
        let current = snd (fst (heappop (open_set s)));
            s1 = s\<lparr> open_set := snd (heappop (open_set s)),
                    frontier_cells := frontier_cells s - {current},
                    accepted := accepted s @ [current] \<rparr>
        in if current = goal then finish current s1
           else
             let s2 = s1\<lparr> closed_set := insert current (closed_set s1),
                          visited_cells := insert current (visited_cells s1),
                          nodes_visited := nodes_visited s1 + 1 \<rparr>
             in fold (astar_neighbor goal current) (get_neighbors g current) s2)"

text \<open>
  The measure of the A* loop: twice the number of grid coordinates that are neither closed
  nor in the open list, plus the length of the open list. A push needs a coordinate of
  the first kind; a pop shortens the list and closes the coordinate.
\<close>

definition astar_size :: "'a picker_scheme \<Rightarrow> run_state \<Rightarrow> nat" where
  "astar_size g s =
     2 * card (cells g - (closed_set s \<union> set (map snd (open_set s)))) + length (open_set s)"

definition astar_measure :: "'a picker_scheme \<Rightarrow> run_state \<Rightarrow> nat" where
  "astar_measure g s = (if going s then Suc (astar_size g s) else 0)"

lemma astar_neighbor_size:
  assumes "n \<in> cells g"
  shows "astar_size g (astar_neighbor goal c n s) \<le> astar_size g s"
proof (cases "open_set (astar_neighbor goal c n s) = open_set s")
  case True
  moreover have "closed_set (astar_neighbor goal c n s) = closed_set s"
    by (simp add: astar_neighbor_def Let_def split: option.splits)
  ultimately show ?thesis by (simp add: astar_size_def)
next
  case False
  let ?A = "closed_set s \<union> set (map snd (open_set s))"
  from False obtain f where
    o: "open_set (astar_neighbor goal c n s) = open_set s @ [(f, n)]"
    and nc: "n \<notin> closed_set s" and no: "n \<notin> set (map snd (open_set s))"
    and cl: "closed_set (astar_neighbor goal c n s) = closed_set s"
    by (auto simp: astar_neighbor_def Let_def heappush_def split: option.splits if_splits)
  have mem: "n \<in> cells g - ?A" using assms nc no by simp
  have "cells g - (closed_set s \<union> set (map snd (open_set s @ [(f, n)]))) = (cells g - ?A) - {n}"
    by auto
  then have "card (cells g - (closed_set s \<union> set (map snd (open_set s @ [(f, n)]))))
               = card (cells g - ?A) - 1"
    using mem by simp
  moreover have "0 < card (cells g - ?A)"
    using mem by (auto simp: card_gt_0_iff)
  ultimately show ?thesis
    by (simp add: astar_size_def o cl)
qed

lemma astar_fold_size:
  "set ns \<subseteq> cells g \<Longrightarrow>
     astar_size g (fold (astar_neighbor goal c) ns s) \<le> astar_size g s"
proof (induction ns arbitrary: s)
  case Nil
  then show ?case by simp
next
  case (Cons n ns)
  have "astar_size g (fold (astar_neighbor goal c) ns (astar_neighbor goal c n s))
          \<le> astar_size g (astar_neighbor goal c n s)"
    using Cons by simp
  also have "\<dots> \<le> astar_size g s"
    using Cons.prems by (simp add: astar_neighbor_size)
  finally show ?case by simp
qed

lemma going_finish [simp]: "\<not> going (finish c s)"
  by (simp add: going_def finish_def split: option.splits)

lemma astar_step_measure:
  assumes "open_set s \<noteq> []" and "going s"
  shows "astar_measure g (astar_step g goal s) < astar_measure g s"
proof -
  let ?item = "fst (heappop (open_set s))"
  let ?c = "snd ?item"
  let ?rest = "snd (heappop (open_set s))"
  show ?thesis
  proof (cases "?c = goal")
    case True
    then show ?thesis
      using assms by (simp add: astar_step_def Let_def astar_measure_def)
  next
    case False
    define s2 where "s2 = s\<lparr> open_set := ?rest, frontier_cells := frontier_cells s - {?c},
      accepted := accepted s @ [?c], closed_set := insert ?c (closed_set s),
      visited_cells := insert ?c (visited_cells s), nodes_visited := nodes_visited s + 1 \<rparr>"
    have step: "astar_step g goal s = fold (astar_neighbor goal ?c) (get_neighbors g ?c) s2"
      using assms False by (simp add: astar_step_def Let_def s2_def)
    have "set (open_set s) \<subseteq> insert ?item (set ?rest)"
      unfolding heappop_def fst_conv snd_conv
      by (metis in_set_remove1 insertCI subsetI)
    then have "set (map snd (open_set s)) \<subseteq> insert ?c (set (map snd ?rest))"
      by auto
    then have "cells g - (closed_set s2 \<union> set (map snd (open_set s2)))
                 \<subseteq> cells g - (closed_set s \<union> set (map snd (open_set s)))"
      by (auto simp: s2_def)
    then have "card (cells g - (closed_set s2 \<union> set (map snd (open_set s2))))
                 \<le> card (cells g - (closed_set s \<union> set (map snd (open_set s))))"
      by (intro card_mono) simp_all
    moreover have "length (open_set s2) + 1 = length (open_set s)"
      using length_heappop [OF assms(1)] by (simp add: s2_def)
    ultimately have "astar_size g s2 < astar_size g s"
      unfolding astar_size_def by linarith
    moreover have "astar_size g (astar_step g goal s) \<le> astar_size g s2"
      unfolding step by (rule astar_fold_size) (auto dest: get_neighbors_cells)
    ultimately show ?thesis
      using assms(2) by (simp add: astar_measure_def)
  qed
qed

function astar_loop :: "'a picker_scheme \<Rightarrow> pos \<Rightarrow> run_state \<Rightarrow> run_state" where
  "astar_loop g goal s =
     (if open_set s \<noteq> [] \<and> going s then astar_loop g goal (astar_step g goal s) else s)"
  by pat_completeness auto
termination
  by (relation "measure (\<lambda>(g, goal, s). astar_measure g s)") (auto simp: astar_step_measure)

declare astar_loop.simps [simp del]

lemma astar_loop_stop:
  "\<not> (open_set s \<noteq> [] \<and> going s) \<Longrightarrow> astar_loop g goal s = s"
  by (subst astar_loop.simps) auto

lemma astar_loop_go:
  "open_set s \<noteq> [] \<Longrightarrow> going s \<Longrightarrow>
     astar_loop g goal s = astar_loop g goal (astar_step g goal s)"
  by (subst astar_loop.simps) simp

definition run_astar :: "'a picker_scheme \<Rightarrow> pos \<Rightarrow> pos \<Rightarrow> run_state" where
  "run_astar g start goal = astar_loop g goal (astar_init start goal)"

section \<open>Start and goal on the same coordinate\<close>

text \<open>
  With \<open>start = goal\<close> the first iteration of every loop takes the start from the frontier
  and reaches the goal test; \<open>came_from\<close> is still empty, so \<open>reconstruct_path\<close> returns
  the one-cell path. The lemmas give the whole final state of each run.
\<close>

lemma reconstruct_path_root: "cf c = None \<Longrightarrow> reconstruct_path cf c = Some [c]"
  by (simp add: reconstruct_path_def walk_back.simps)

lemma bfs_same_start:
  "run_bfs g start start =
     (bfs_init start)\<lparr> queue := [], frontier_cells := {}, nodes_visited := 1,
        accepted := [start], found_path := Some [start] \<rparr>"
  (is "_ = ?s")
proof -
  have 1: "bfs_step g start (bfs_init start) = ?s"
    by (simp add: bfs_step_def bfs_init_def blank_def finish_def reconstruct_path_root)
  have "run_bfs g start start = bfs_loop g start ?s"
    unfolding run_bfs_def 1 [symmetric]
    by (rule bfs_loop_go) (simp_all add: bfs_init_def blank_def going_def)
  also have "\<dots> = ?s"
    by (rule bfs_loop_stop) (simp add: going_def)
  finally show ?thesis .
qed

lemma dfs_same_start:
  "run_dfs g start start =
     (dfs_init start)\<lparr> stack := [], frontier_cells := {}, visited := {start}, nodes_visited := 1,
        accepted := [start], found_path := Some [start] \<rparr>"
  (is "_ = ?s")
proof -
  have 1: "dfs_step g start (dfs_init start) = ?s"
    by (simp add: dfs_step_def dfs_init_def blank_def finish_def reconstruct_path_root)
  have "run_dfs g start start = dfs_loop g start ?s"
    unfolding run_dfs_def 1 [symmetric]
    by (rule dfs_loop_go) (simp_all add: dfs_init_def blank_def going_def)
  also have "\<dots> = ?s"
    by (rule dfs_loop_stop) (simp add: going_def)
  finally show ?thesis .
qed

lemma dls_same_start:
  "run_dls g start start depth_limit =
     (dls_init start)\<lparr> stack_d := [], frontier_cells := {}, visited := {start}, nodes_visited := 1,
        accepted := [start], found_path := Some [start] \<rparr>"
  (is "_ = ?s")
proof -
  have 1: "dls_step g start depth_limit (dls_init start) = ?s"
    by (simp add: dls_step_def dls_init_def blank_def finish_def reconstruct_path_root)
  have "run_dls g start start depth_limit = dls_loop g start depth_limit ?s"
    unfolding run_dls_def 1 [symmetric]
    by (rule dls_loop_go) (simp_all add: dls_init_def blank_def going_def)
  also have "\<dots> = ?s"
    by (rule dls_loop_stop) (simp add: going_def)
  finally show ?thesis .
qed

lemma heappop_single [simp]: "heappop [x] = (x, [])"
  by (simp add: heappop_def heap_min_def)

lemma ucs_same_start:
  "run_ucs g start start =
     (ucs_init start)\<lparr> open_set := [], frontier_cells := {}, visited_cells := {start}, nodes_visited := 1,
        accepted := [start], found_path := Some [start] \<rparr>"
  (is "_ = ?s")
proof -
  have 1: "ucs_step g start (ucs_init start) = ?s"
    by (simp add: ucs_step_def ucs_init_def blank_def finish_def reconstruct_path_root heappush_def)
  have "run_ucs g start start = ucs_loop g start ?s"
    unfolding run_ucs_def 1 [symmetric]
    by (rule ucs_loop_go) (simp_all add: ucs_init_def blank_def going_def heappush_def)
  also have "\<dots> = ?s"
    by (rule ucs_loop_stop) (simp add: going_def)
  finally show ?thesis .
qed

lemma astar_same_start:
  "run_astar g start start =
     (astar_init start start)\<lparr> open_set := [], frontier_cells := {},
        accepted := [start], found_path := Some [start] \<rparr>"
  (is "_ = ?s")
proof -
  have 1: "astar_step g start (astar_init start start) = ?s"
    by (simp add: astar_step_def astar_init_def blank_def finish_def reconstruct_path_root heappush_def)
  have "run_astar g start start = astar_loop g start ?s"
    unfolding run_astar_def 1 [symmetric]
    by (rule astar_loop_go) (simp_all add: astar_init_def blank_def going_def heappush_def)
  also have "\<dots> = ?s"
    by (rule astar_loop_stop) (simp add: going_def)
  finally show ?thesis .
qed

text \<open>
  Claim C10. When the start equals the goal, each of the five runs succeeds on the first
  frontier element (the only coordinate taken from the frontier is the start) and
  reconstructs the single-cell path \<open>[start]\<close>, of length 1. A* tests for the goal before
  it counts the coordinate, so its \<open>nodes_visited\<close> is 0; the other four count first, so
  theirs is 1.
\<close>

theorem same_start_goal:
  "result (run_astar g start start) = PathFound [start] \<and>
   result (run_bfs g start start) = PathFound [start] \<and>
   result (run_dfs g start start) = PathFound [start] \<and>
   result (run_ucs g start start) = PathFound [start] \<and>
   result_dls depth_limit (run_dls g start start depth_limit) = PathFound [start] \<and>
   length [start] = 1 \<and>
   accepted (run_astar g start start) = [start] \<and>
   accepted (run_bfs g start start) = [start] \<and>
   accepted (run_dfs g start start) = [start] \<and>
   accepted (run_ucs g start start) = [start] \<and>
   accepted (run_dls g start start depth_limit) = [start] \<and>
   nodes_visited (run_astar g start start) = 0 \<and>
   nodes_visited (run_bfs g start start) = 1 \<and>
   nodes_visited (run_dfs g start start) = 1 \<and>
   nodes_visited (run_ucs g start start) = 1 \<and>
   nodes_visited (run_dls g start start depth_limit) = 1"
  by (simp add: astar_same_start bfs_same_start dfs_same_start ucs_same_start dls_same_start
      astar_init_def bfs_init_def dfs_init_def ucs_init_def dls_init_def blank_def
      result_def result_dls_def)

section \<open>A cheaper path to a coordinate that is already in the open list\<close>

text \<open>
  In \<open>run_astar\<close> the push is guarded by \<open>neighbor not in [item[1] for item in open_set]\<close>.
  When the relaxation finds a cheaper path to a coordinate that is in the open list, the
  three dictionaries are updated and the open list is left as it is: the coordinate keeps
  the entry with its old, larger priority.
\<close>







section \<open>Invariants and iteration counts of the loops\<close>

text \<open>
  For each loop: a property that holds before the loop and is kept by every iteration
  holds after it; the loop ends with its condition false; and the final state is reached
  by a number of iterations that the measure of the initial state bounds.
\<close>

lemma bfs_loop_invariant:
  assumes "I s"
    and "\<And>t. I t \<Longrightarrow> queue t \<noteq> [] \<Longrightarrow> going t \<Longrightarrow> I (bfs_step g goal t)"
  shows "I (bfs_loop g goal s)"
  using assms
proof (induction g goal s rule: bfs_loop.induct)
  case (1 g goal s)
  show ?case
  proof (cases "queue s \<noteq> [] \<and> going s")
    case True
    then have "I (bfs_step g goal s)"
      using 1 by blast
    then have "I (bfs_loop g goal (bfs_step g goal s))"
      using 1 True by blast
    then show ?thesis
      using True by (simp add: bfs_loop_go)
  next
    case False
    then show ?thesis
      using 1 by (simp add: bfs_loop_stop)
  qed
qed

lemma bfs_loop_done:
  "queue (bfs_loop g goal s) = [] \<or> \<not> going (bfs_loop g goal s)"
proof (induction g goal s rule: bfs_loop.induct)
  case (1 g goal s)
  then show ?case
    by (cases "queue s \<noteq> [] \<and> going s") (auto simp: bfs_loop_go bfs_loop_stop)
qed

lemma bfs_loop_iterations:
  "\<exists>n \<le> bfs_measure g s. bfs_loop g goal s = (bfs_step g goal ^^ n) s"
proof (induction g goal s rule: bfs_loop.induct)
  case (1 g goal s)
  show ?case
  proof (cases "queue s \<noteq> [] \<and> going s")
    case True
    then obtain n where n: "n \<le> bfs_measure g (bfs_step g goal s)"
      and eq: "bfs_loop g goal (bfs_step g goal s)
                 = (bfs_step g goal ^^ n) (bfs_step g goal s)"
      using 1 by blast
    have "bfs_measure g (bfs_step g goal s) < bfs_measure g s"
      using True by (simp add: bfs_step_measure)
    then have "Suc n \<le> bfs_measure g s"
      using n by linarith
    moreover have "bfs_loop g goal s = (bfs_step g goal ^^ Suc n) s"
      using True eq by (simp add: bfs_loop_go funpow_swap1)
    ultimately show ?thesis by blast
  next
    case False
    then have "bfs_loop g goal s = (bfs_step g goal ^^ 0) s"
      by (simp add: bfs_loop_stop)
    then show ?thesis by blast
  qed
qed

lemma dfs_loop_invariant:
  assumes "I s"
    and "\<And>t. I t \<Longrightarrow> stack t \<noteq> [] \<Longrightarrow> going t \<Longrightarrow> I (dfs_step g goal t)"
  shows "I (dfs_loop g goal s)"
  using assms
proof (induction g goal s rule: dfs_loop.induct)
  case (1 g goal s)
  show ?case
  proof (cases "stack s \<noteq> [] \<and> going s")
    case True
    then have "I (dfs_step g goal s)"
      using 1 by blast
    then have "I (dfs_loop g goal (dfs_step g goal s))"
      using 1 True by blast
    then show ?thesis
      using True by (simp add: dfs_loop_go)
  next
    case False
    then show ?thesis
      using 1 by (simp add: dfs_loop_stop)
  qed
qed

lemma dfs_loop_done:
  "stack (dfs_loop g goal s) = [] \<or> \<not> going (dfs_loop g goal s)"
proof (induction g goal s rule: dfs_loop.induct)
  case (1 g goal s)
  then show ?case
    by (cases "stack s \<noteq> [] \<and> going s") (auto simp: dfs_loop_go dfs_loop_stop)
qed

lemma dfs_loop_iterations:
  "\<exists>n \<le> lazy_measure g (stack s) (visited s). dfs_loop g goal s = (dfs_step g goal ^^ n) s"
proof (induction g goal s rule: dfs_loop.induct)
  case (1 g goal s)
  show ?case
  proof (cases "stack s \<noteq> [] \<and> going s")
    case True
    then obtain n where n: "n \<le> lazy_measure g (stack (dfs_step g goal s)) (visited (dfs_step g goal s))"
      and eq: "dfs_loop g goal (dfs_step g goal s)
                 = (dfs_step g goal ^^ n) (dfs_step g goal s)"
      using 1 by blast
    have "lazy_measure g (stack (dfs_step g goal s)) (visited (dfs_step g goal s)) < lazy_measure g (stack s) (visited s)"
      using True by (simp add: dfs_step_measure)
    then have "Suc n \<le> lazy_measure g (stack s) (visited s)"
      using n by linarith
    moreover have "dfs_loop g goal s = (dfs_step g goal ^^ Suc n) s"
      using True eq by (simp add: dfs_loop_go funpow_swap1)
    ultimately show ?thesis by blast
  next
    case False
    then have "dfs_loop g goal s = (dfs_step g goal ^^ 0) s"
      by (simp add: dfs_loop_stop)
    then show ?thesis by blast
  qed
qed

lemma dls_loop_invariant:
  assumes "I s"
    and "\<And>t. I t \<Longrightarrow> stack_d t \<noteq> [] \<Longrightarrow> going t \<Longrightarrow> I (dls_step g goal depth_limit t)"
  shows "I (dls_loop g goal depth_limit s)"
  using assms
proof (induction g goal depth_limit s rule: dls_loop.induct)
  case (1 g goal depth_limit s)
  show ?case
  proof (cases "stack_d s \<noteq> [] \<and> going s")
    case True
    then have "I (dls_step g goal depth_limit s)"
      using 1 by blast
    then have "I (dls_loop g goal depth_limit (dls_step g goal depth_limit s))"
      using 1 True by blast
    then show ?thesis
      using True by (simp add: dls_loop_go)
  next
    case False
    then show ?thesis
      using 1 by (simp add: dls_loop_stop)
  qed
qed

lemma dls_loop_done:
  "stack_d (dls_loop g goal depth_limit s) = [] \<or> \<not> going (dls_loop g goal depth_limit s)"
proof (induction g goal depth_limit s rule: dls_loop.induct)
  case (1 g goal depth_limit s)
  then show ?case
    by (cases "stack_d s \<noteq> [] \<and> going s") (auto simp: dls_loop_go dls_loop_stop)
qed

lemma dls_loop_iterations:
  "\<exists>n \<le> dls_measure g s. dls_loop g goal depth_limit s = (dls_step g goal depth_limit ^^ n) s"
proof (induction g goal depth_limit s rule: dls_loop.induct)
  case (1 g goal depth_limit s)
  show ?case
  proof (cases "stack_d s \<noteq> [] \<and> going s")
    case True
    then obtain n where n: "n \<le> dls_measure g (dls_step g goal depth_limit s)"
      and eq: "dls_loop g goal depth_limit (dls_step g goal depth_limit s)
                 = (dls_step g goal depth_limit ^^ n) (dls_step g goal depth_limit s)"
      using 1 by blast
    have "dls_measure g (dls_step g goal depth_limit s) < dls_measure g s"
      using True by (simp add: dls_step_measure)
    then have "Suc n \<le> dls_measure g s"
      using n by linarith
    moreover have "dls_loop g goal depth_limit s = (dls_step g goal depth_limit ^^ Suc n) s"
      using True eq by (simp add: dls_loop_go funpow_swap1)
    ultimately show ?thesis by blast
  next
    case False
    then have "dls_loop g goal depth_limit s = (dls_step g goal depth_limit ^^ 0) s"
      by (simp add: dls_loop_stop)
    then show ?thesis by blast
  qed
qed

lemma ucs_loop_invariant:
  assumes "I s"
    and "\<And>t. I t \<Longrightarrow> open_set t \<noteq> [] \<Longrightarrow> going t \<Longrightarrow> I (ucs_step g goal t)"
  shows "I (ucs_loop g goal s)"
  using assms
proof (induction g goal s rule: ucs_loop.induct)
  case (1 g goal s)
  show ?case
  proof (cases "open_set s \<noteq> [] \<and> going s")
    case True
    then have "I (ucs_step g goal s)"
      using 1 by blast
    then have "I (ucs_loop g goal (ucs_step g goal s))"
      using 1 True by blast
    then show ?thesis
      using True by (simp add: ucs_loop_go)
  next
    case False
    then show ?thesis
      using 1 by (simp add: ucs_loop_stop)
  qed
qed

lemma ucs_loop_done:
  "open_set (ucs_loop g goal s) = [] \<or> \<not> going (ucs_loop g goal s)"
proof (induction g goal s rule: ucs_loop.induct)
  case (1 g goal s)
  then show ?case
    by (cases "open_set s \<noteq> [] \<and> going s") (auto simp: ucs_loop_go ucs_loop_stop)
qed

lemma ucs_loop_iterations:
  "\<exists>n \<le> ucs_measure g s. ucs_loop g goal s = (ucs_step g goal ^^ n) s"
proof (induction g goal s rule: ucs_loop.induct)
  case (1 g goal s)
  show ?case
  proof (cases "open_set s \<noteq> [] \<and> going s")
    case True
    then obtain n where n: "n \<le> ucs_measure g (ucs_step g goal s)"
      and eq: "ucs_loop g goal (ucs_step g goal s)
                 = (ucs_step g goal ^^ n) (ucs_step g goal s)"
      using 1 by blast
    have "ucs_measure g (ucs_step g goal s) < ucs_measure g s"
      using True by (simp add: ucs_step_measure)
    then have "Suc n \<le> ucs_measure g s"
      using n by linarith
    moreover have "ucs_loop g goal s = (ucs_step g goal ^^ Suc n) s"
      using True eq by (simp add: ucs_loop_go funpow_swap1)
    ultimately show ?thesis by blast
  next
    case False
    then have "ucs_loop g goal s = (ucs_step g goal ^^ 0) s"
      by (simp add: ucs_loop_stop)
    then show ?thesis by blast
  qed
qed

lemma astar_loop_invariant:
  assumes "I s"
    and "\<And>t. I t \<Longrightarrow> open_set t \<noteq> [] \<Longrightarrow> going t \<Longrightarrow> I (astar_step g goal t)"
  shows "I (astar_loop g goal s)"
  using assms
proof (induction g goal s rule: astar_loop.induct)
  case (1 g goal s)
  show ?case
  proof (cases "open_set s \<noteq> [] \<and> going s")
    case True
    then have "I (astar_step g goal s)"
      using 1 by blast
    then have "I (astar_loop g goal (astar_step g goal s))"
      using 1 True by blast
    then show ?thesis
      using True by (simp add: astar_loop_go)
  next
    case False
    then show ?thesis
      using 1 by (simp add: astar_loop_stop)
  qed
qed

lemma astar_loop_done:
  "open_set (astar_loop g goal s) = [] \<or> \<not> going (astar_loop g goal s)"
proof (induction g goal s rule: astar_loop.induct)
  case (1 g goal s)
  then show ?case
    by (cases "open_set s \<noteq> [] \<and> going s") (auto simp: astar_loop_go astar_loop_stop)
qed

lemma astar_loop_iterations:
  "\<exists>n \<le> astar_measure g s. astar_loop g goal s = (astar_step g goal ^^ n) s"
proof (induction g goal s rule: astar_loop.induct)
  case (1 g goal s)
  show ?case
  proof (cases "open_set s \<noteq> [] \<and> going s")
    case True
    then obtain n where n: "n \<le> astar_measure g (astar_step g goal s)"
      and eq: "astar_loop g goal (astar_step g goal s)
                 = (astar_step g goal ^^ n) (astar_step g goal s)"
      using 1 by blast
    have "astar_measure g (astar_step g goal s) < astar_measure g s"
      using True by (simp add: astar_step_measure)
    then have "Suc n \<le> astar_measure g s"
      using n by linarith
    moreover have "astar_loop g goal s = (astar_step g goal ^^ Suc n) s"
      using True eq by (simp add: astar_loop_go funpow_swap1)
    ultimately show ?thesis by blast
  next
    case False
    then have "astar_loop g goal s = (astar_step g goal ^^ 0) s"
      by (simp add: astar_loop_stop)
    then show ?thesis by blast
  qed
qed

section \<open>The statistics of a run\<close>

text \<open>
  \<open>counted s\<close>: \<open>nodes_visited\<close> is the number of coordinates taken from the frontier
  and accepted, and \<open>nodes_explored\<close> is the number of coordinates placed on the frontier,
  the start included.
\<close>

definition counted :: "run_state \<Rightarrow> bool" where
  "counted s \<longleftrightarrow>
     nodes_visited s = int (length (accepted s)) \<and>
     nodes_explored s = int (length (generated s))"

lemma counted_finish [simp]: "counted (finish c s) = counted s"
  by (simp add: counted_def finish_def split: option.splits)

lemma bfs_fold_counted: "counted s \<Longrightarrow> counted (fold (bfs_neighbor c) ns s)"
  by (induction ns arbitrary: s) (simp_all add: counted_def bfs_neighbor_def)

lemma dfs_fold_counted: "counted s \<Longrightarrow> counted (fold (dfs_neighbor c) ns s)"
  by (induction ns arbitrary: s) (simp_all add: counted_def dfs_neighbor_def)

lemma dls_fold_counted: "counted s \<Longrightarrow> counted (fold (dls_neighbor c d) ns s)"
  by (induction ns arbitrary: s) (simp_all add: counted_def dls_neighbor_def)

lemma ucs_neighbor_counted: "counted s \<Longrightarrow> counted (ucs_neighbor c n s)"
  by (simp add: counted_def ucs_neighbor_def Let_def split: option.splits)

lemma ucs_fold_counted: "counted s \<Longrightarrow> counted (fold (ucs_neighbor c) ns s)"
  by (induction ns arbitrary: s) (simp_all add: ucs_neighbor_counted)

lemma counted_accept:
  "counted s \<Longrightarrow> counted (s\<lparr> nodes_visited := nodes_visited s + 1, accepted := accepted s @ [c] \<rparr>)"
  by (simp add: counted_def)

lemma bfs_step_counted:
  assumes "counted s"
  shows "counted (bfs_step g goal s)"
proof (cases "queue s")
  case Nil
  then show ?thesis using assms by (simp add: bfs_step_def)
next
  case (Cons current rest)
  define s1 where "s1 = s\<lparr> queue := rest, frontier_cells := frontier_cells s - {current},
    nodes_visited := nodes_visited s + 1, accepted := accepted s @ [current] \<rparr>"
  have "counted s1"
    using assms by (simp add: s1_def counted_def)
  moreover have "bfs_step g goal s =
      (if current = goal then finish current s1
       else fold (bfs_neighbor current) (get_neighbors g current) s1)"
    by (simp add: bfs_step_def Cons s1_def)
  ultimately show ?thesis
    by (simp add: bfs_fold_counted)
qed

lemma dfs_step_counted:
  assumes "counted s"
  shows "counted (dfs_step g goal s)"
proof -
  let ?c = "last (stack s)"
  define s1 where "s1 = s\<lparr> stack := butlast (stack s), frontier_cells := frontier_cells s - {?c} \<rparr>"
  define s2 where "s2 = s1\<lparr> visited := insert ?c (visited s1),
    nodes_visited := nodes_visited s1 + 1, accepted := accepted s1 @ [?c] \<rparr>"
  have 1: "counted s1" using assms by (simp add: s1_def counted_def)
  then have 2: "counted s2" by (simp add: s2_def counted_def)
  have "dfs_step g goal s =
      (if stack s = [] then s
       else if ?c \<in> visited s1 then s1
       else if ?c = goal then finish ?c s2
       else fold (dfs_neighbor ?c) (rev (get_neighbors g ?c)) s2)"
    by (simp add: dfs_step_def Let_def s1_def s2_def)
  then show ?thesis
    using assms 1 2 by (simp add: dfs_fold_counted)
qed

lemma dls_step_counted:
  assumes "counted s"
  shows "counted (dls_step g goal depth_limit s)"
proof -
  let ?c = "fst (last (stack_d s))"
  let ?d = "snd (last (stack_d s))"
  define s1 where "s1 = s\<lparr> stack_d := butlast (stack_d s),
    frontier_cells := frontier_cells s - {?c} \<rparr>"
  define s2 where "s2 = s1\<lparr> visited := insert ?c (visited s1),
    nodes_visited := nodes_visited s1 + 1, accepted := accepted s1 @ [?c] \<rparr>"
  have 1: "counted s1" using assms by (simp add: s1_def counted_def)
  then have 2: "counted s2" by (simp add: s2_def counted_def)
  have "dls_step g goal depth_limit s =
      (if stack_d s = [] then s
       else if ?c \<in> visited s1 then s1
       else if ?c = goal then finish ?c s2
       else if ?d \<ge> depth_limit then s2
       else fold (dls_neighbor ?c ?d) (rev (get_neighbors g ?c)) s2)"
    by (simp add: dls_step_def Let_def s1_def s2_def)
  then show ?thesis
    using assms 1 2 by (simp add: dls_fold_counted)
qed

lemma ucs_step_counted:
  assumes "counted s"
  shows "counted (ucs_step g goal s)"
proof -
  let ?c = "snd (fst (heappop (open_set s)))"
  define s1 where "s1 = s\<lparr> open_set := snd (heappop (open_set s)),
    frontier_cells := frontier_cells s - {?c} \<rparr>"
  define s2 where "s2 = s1\<lparr> visited_cells := insert ?c (visited_cells s1),
    nodes_visited := nodes_visited s1 + 1, accepted := accepted s1 @ [?c] \<rparr>"
  have 1: "counted s1" using assms by (simp add: s1_def counted_def)
  then have 2: "counted s2" by (simp add: s2_def counted_def)
  have "ucs_step g goal s =
      (if open_set s = [] then s
       else if ?c \<in> visited_cells s1 then s1
       else if ?c = goal then finish ?c s2
       else fold (ucs_neighbor ?c) (get_neighbors g ?c) s2)"
    by (simp add: ucs_step_def Let_def s1_def s2_def)
  then show ?thesis
    using assms 1 2 by (simp add: ucs_fold_counted)
qed

text \<open>
  A* counts differently: \<open>nodes_explored\<close> starts at 0 although the start is on the open
  list, and \<open>nodes_visited\<close> is incremented after the goal test, so the pop of the goal is
  not counted.
\<close>

definition astar_counted :: "pos \<Rightarrow> run_state \<Rightarrow> bool" where
  "astar_counted goal s \<longleftrightarrow>
     nodes_visited s = int (length (filter (\<lambda>c. c \<noteq> goal) (accepted s))) \<and>
     nodes_explored s + 1 = int (length (generated s))"

lemma astar_counted_finish [simp]: "astar_counted goal (finish c s) = astar_counted goal s"
  by (simp add: astar_counted_def finish_def split: option.splits)

lemma astar_neighbor_counted:
  "astar_counted goal s \<Longrightarrow> astar_counted goal (astar_neighbor goal c n s)"
  by (simp add: astar_counted_def astar_neighbor_def Let_def split: option.splits)

lemma astar_fold_counted:
  "astar_counted goal s \<Longrightarrow> astar_counted goal (fold (astar_neighbor goal c) ns s)"
  by (induction ns arbitrary: s) (simp_all add: astar_neighbor_counted)

lemma astar_step_counted:
  assumes "astar_counted goal s"
  shows "astar_counted goal (astar_step g goal s)"
proof -
  let ?c = "snd (fst (heappop (open_set s)))"
  define s1 where "s1 = s\<lparr> open_set := snd (heappop (open_set s)),
    frontier_cells := frontier_cells s - {?c}, accepted := accepted s @ [?c] \<rparr>"
  define s2 where "s2 = s1\<lparr> closed_set := insert ?c (closed_set s1),
    visited_cells := insert ?c (visited_cells s1), nodes_visited := nodes_visited s1 + 1 \<rparr>"
  have 1: "?c = goal \<Longrightarrow> astar_counted goal s1"
    using assms by (simp add: s1_def astar_counted_def)
  have 2: "?c \<noteq> goal \<Longrightarrow> astar_counted goal s2"
    using assms by (simp add: s2_def s1_def astar_counted_def)
  have "astar_step g goal s =
      (if open_set s = [] then s
       else if ?c = goal then finish ?c s1
       else fold (astar_neighbor goal ?c) (get_neighbors g ?c) s2)"
    by (simp add: astar_step_def Let_def s1_def s2_def)
  then show ?thesis
    using assms 1 2 by (simp add: astar_fold_counted)
qed

lemma counted_init:
  "counted (bfs_init start)" "counted (dfs_init start)" "counted (dls_init start)"
  "counted (ucs_init start)" "astar_counted goal (astar_init start goal)"
  by (simp_all add: counted_def astar_counted_def bfs_init_def dfs_init_def dls_init_def
      ucs_init_def astar_init_def blank_def)

text \<open>
  Claim C5, as the code has it. In every run of Breadth-First, Depth-First, Uniform-Cost
  and Depth-Limited search, \<open>nodes_visited\<close> is the number of coordinates taken from the
  frontier and accepted, and \<open>nodes_explored\<close> is the number of coordinates placed on the
  frontier, the start included. In every run of A*, \<open>nodes_visited\<close> is the number of
  accepted coordinates other than the goal (the pop of the goal is not counted).
\<close>

theorem statistics_count_events:
  "counted (run_bfs g start goal) \<and> counted (run_dfs g start goal) \<and>
   counted (run_ucs g start goal) \<and> counted (run_dls g start goal depth_limit) \<and>
   nodes_visited (run_astar g start goal) =
     int (length (filter (\<lambda>c. c \<noteq> goal) (accepted (run_astar g start goal))))"
proof -
  have "counted (run_bfs g start goal)"
    unfolding run_bfs_def
    by (rule bfs_loop_invariant) (simp_all add: counted_init bfs_step_counted)
  moreover have "counted (run_dfs g start goal)"
    unfolding run_dfs_def
    by (rule dfs_loop_invariant) (simp_all add: counted_init dfs_step_counted)
  moreover have "counted (run_ucs g start goal)"
    unfolding run_ucs_def
    by (rule ucs_loop_invariant) (simp_all add: counted_init ucs_step_counted)
  moreover have "counted (run_dls g start goal depth_limit)"
    unfolding run_dls_def
    by (rule dls_loop_invariant) (simp_all add: counted_init dls_step_counted)
  moreover have "astar_counted goal (run_astar g start goal)"
    unfolding run_astar_def
    by (rule astar_loop_invariant) (simp_all add: counted_init astar_step_counted)
  ultimately show ?thesis
    by (simp add: astar_counted_def)
qed

text \<open>
  Claim C5 as stated fails for A*. On any grid with the start equal to the goal, the start
  is placed on the open list and popped and accepted, and both statistics are 0.
\<close>

theorem statistics_astar_counterexample:
  "generated (run_astar demo_grid (1, 0) (1, 0)) = [(1, 0)] \<and>
   nodes_explored (run_astar demo_grid (1, 0) (1, 0)) = 0 \<and>
   accepted (run_astar demo_grid (1, 0) (1, 0)) = [(1, 0)] \<and>
   nodes_visited (run_astar demo_grid (1, 0) (1, 0)) = 0"
  by (simp add: astar_same_start astar_init_def blank_def)

section \<open>Paths on the grid\<close>

text \<open>
  Two coordinates are 4-adjacent when they differ by one step in one direction. A path
  is a non-empty sequence of free coordinates (inside the grid, not an obstacle) in which
  consecutive coordinates are 4-adjacent.
\<close>

definition adjacent :: "pos \<Rightarrow> pos \<Rightarrow> bool" where
  "adjacent a b \<longleftrightarrow> \<bar>fst a - fst b\<bar> + \<bar>snd a - snd b\<bar> = 1"

definition valid_path :: "'a picker_scheme \<Rightarrow> pos list \<Rightarrow> bool" where
  "valid_path g p \<longleftrightarrow> p \<noteq> [] \<and> list_all (free g) p \<and> successively adjacent p"

definition path_between :: "'a picker_scheme \<Rightarrow> pos \<Rightarrow> pos \<Rightarrow> pos list \<Rightarrow> bool" where
  "path_between g start goal p \<longleftrightarrow> valid_path g p \<and> hd p = start \<and> last p = goal"

lemma adjacent_around: "b \<in> set (around a) \<longleftrightarrow> adjacent a b"
  by (cases a; cases b) (auto simp: around_def adjacent_def)

lemma adjacent_sym: "adjacent a b \<longleftrightarrow> adjacent b a"
  by (auto simp: adjacent_def)

lemma get_neighbors_iff: "n \<in> set (get_neighbors g c) \<longleftrightarrow> adjacent c n \<and> free g n"
  by (auto simp: get_neighbors_filter adjacent_around)

lemma distinct_around: "distinct (around a)"
  by (simp add: around_def)

lemma distinct_get_neighbors: "distinct (get_neighbors g c)"
  by (simp add: get_neighbors_filter distinct_around)

lemma valid_path_single: "valid_path g [x] \<longleftrightarrow> free g x"
  by (simp add: valid_path_def)

lemma valid_path_snoc:
  "p \<noteq> [] \<Longrightarrow> valid_path g (p @ [x]) \<longleftrightarrow> valid_path g p \<and> adjacent (last p) x \<and> free g x"
  by (auto simp: valid_path_def successively_append_iff)

lemma path_between_snoc:
  "p \<noteq> [] \<Longrightarrow> path_between g start x (p @ [x]) \<longleftrightarrow>
     path_between g start (last p) p \<and> adjacent (last p) x \<and> free g x"
  by (auto simp: path_between_def valid_path_snoc)

lemma path_between_single: "path_between g start x [y] \<longleftrightarrow> free g y \<and> y = start \<and> y = x"
  by (auto simp: path_between_def valid_path_single)

text \<open>An induction principle for paths from a fixed start, by extension at the end.\<close>

lemma path_between_induct [consumes 1, case_names start step]:
  assumes "path_between g start x p"
    and "free g start \<Longrightarrow> P start [start]"
    and "\<And>y q x. path_between g start y q \<Longrightarrow> P y q \<Longrightarrow> adjacent y x \<Longrightarrow> free g x
           \<Longrightarrow> P x (q @ [x])"
  shows "P x p"
  using assms(1)
proof (induction p arbitrary: x rule: rev_induct)
  case Nil
  then show ?case by (simp add: path_between_def valid_path_def)
next
  case (snoc z q)
  show ?case
  proof (cases "q = []")
    case True
    then show ?thesis
      using snoc.prems assms(2) by (auto simp: path_between_single)
  next
    case False
    then have z: "z = x" and pb: "path_between g start (last q) q"
      and adj: "adjacent (last q) x" and fr: "free g x"
      using snoc.prems by (auto simp: path_between_def valid_path_snoc)
    have "P (last q) q" using snoc.IH pb by blast
    then show ?thesis
      using assms(3) pb adj fr z by blast
  qed
qed

section \<open>The predecessor chain\<close>

text \<open>
  \<open>chain cf x p\<close>: following \<open>came_from\<close> from \<open>x\<close> ends at a coordinate without
  predecessor, and \<open>p\<close> lists the coordinates met, last first. Then \<open>reconstruct_path\<close>
  returns \<open>p\<close>.
\<close>

inductive chain :: "(pos \<rightharpoonup> pos) \<Rightarrow> pos \<Rightarrow> pos list \<Rightarrow> bool" where
  root: "cf x = None \<Longrightarrow> chain cf x [x]"
| link: "cf x = Some y \<Longrightarrow> chain cf y p \<Longrightarrow> chain cf x (p @ [x])"

lemma chain_last: "chain cf x p \<Longrightarrow> p \<noteq> [] \<and> last p = x"
  by (induction rule: chain.induct) simp_all

lemma chain_walk_back: "chain cf x p \<Longrightarrow> walk_back cf x acc = Some (acc @ tl (rev p))"
proof (induction arbitrary: acc rule: chain.induct)
  case (root cf x)
  then show ?case by (simp add: walk_back.simps)
next
  case (link cf x y p)
  obtain t where t: "rev p = y # t"
    using chain_last [OF link.hyps(2)] by (metis hd_Cons_tl hd_rev rev_is_Nil_conv)
  have "walk_back cf x acc = walk_back cf y (acc @ [y])"
    using link.hyps(1) by (subst walk_back.simps) simp
  also have "\<dots> = Some ((acc @ [y]) @ tl (rev p))"
    by (rule link.IH)
  finally show ?case
    by (simp add: t)
qed

lemma chain_reconstruct: "chain cf x p \<Longrightarrow> reconstruct_path cf x = Some p"
proof -
  assume c: "chain cf x p"
  obtain t where t: "rev p = x # t"
    using chain_last [OF c] by (metis hd_Cons_tl hd_rev rev_is_Nil_conv)
  then have "p = rev (x # t)"
    by (metis rev_rev_ident)
  then show ?thesis
    using chain_walk_back [OF c, of "[x]"] by (simp add: reconstruct_path_def t)
qed

lemma chain_unique: "chain cf x p \<Longrightarrow> chain cf x q \<Longrightarrow> p = q"
  using chain_reconstruct [of cf x p] chain_reconstruct [of cf x q] by simp

lemma chain_frame: "chain cf x p \<Longrightarrow> n \<notin> set p \<Longrightarrow> chain (cf(n \<mapsto> c)) x p"
proof (induction rule: chain.induct)
  case (root cf x)
  then show ?case by (simp add: chain.root)
next
  case (link cf x y p)
  then show ?case by (auto intro: chain.link)
qed

lemma finish_chain:
  "chain (came_from s) c p \<Longrightarrow> finish c s = s\<lparr>found_path := Some p\<rparr>"
  by (simp add: finish_def chain_reconstruct)

lemma chain_agree:
  "chain cf x p \<Longrightarrow> (\<And>z. z \<in> set p \<Longrightarrow> cf' z = cf z) \<Longrightarrow> chain cf' x p"
proof (induction rule: chain.induct)
  case (root cf x)
  then show ?case by (simp add: chain.root)
next
  case (link cf x y p)
  have "cf' x = Some y"
    using link.prems [of x] link.hyps(1) by simp
  moreover have "chain cf' y p"
    using link.IH link.prems by simp
  ultimately show ?case
    by (rule chain.link)
qed

section \<open>Depth-first search finds a path when there is one\<close>

lemma dfs_fold_came_from:
  "came_from (fold (dfs_neighbor c) ns s) x =
     (if x \<in> set ns \<and> x \<notin> visited s then Some c else came_from s x)"
  by (induction ns arbitrary: s) (auto simp: dfs_neighbor_def)

text \<open>
  The invariant of the depth-first loop while it is going. Every visited coordinate has a
  predecessor chain that is a path from the start inside the visited set; an unvisited
  coordinate on the stack is the start itself or has a visited predecessor next to it;
  every neighbour of a visited coordinate is visited or on the stack; the goal is not
  visited.
\<close>

definition dfs_inv :: "'a picker_scheme \<Rightarrow> pos \<Rightarrow> pos \<Rightarrow> run_state \<Rightarrow> bool" where
  "dfs_inv g start goal s \<longleftrightarrow>
     going s \<and> goal \<notin> visited s \<and>
     (start \<in> visited s \<or> start \<in> set (stack s)) \<and>
     (\<forall>x \<in> visited s. \<exists>p. chain (came_from s) x p \<and> path_between g start x p \<and>
                               set p \<subseteq> visited s) \<and>
     (\<forall>x \<in> set (stack s). x \<in> visited s \<or> (x = start \<and> came_from s x = None) \<or>
         (\<exists>y \<in> visited s. came_from s x = Some y \<and> adjacent y x \<and> free g x)) \<and>
     (\<forall>x \<in> visited s. \<forall>n \<in> set (get_neighbors g x). n \<in> visited s \<or> n \<in> set (stack s))"

text \<open>The state after a successful run: a path from the start to the goal was found.\<close>

definition found :: "'a picker_scheme \<Rightarrow> pos \<Rightarrow> pos \<Rightarrow> run_state \<Rightarrow> bool" where
  "found g start goal s \<longleftrightarrow>
     abort s = None \<and> (\<exists>p. found_path s = Some p \<and> path_between g start goal p)"

lemma dfs_inv_init: "dfs_inv g start goal (dfs_init start)"
  by (simp add: dfs_inv_def dfs_init_def blank_def going_def)

lemma dfs_step_inv:
  assumes inv: "dfs_inv g start goal s" and ne: "stack s \<noteq> []" and fs: "free g start"
  shows "dfs_inv g start goal (dfs_step g goal s) \<or> found g start goal (dfs_step g goal s)"
proof -
  let ?c = "last (stack s)"
  let ?rest = "butlast (stack s)"
  have st: "stack s = ?rest @ [?c]" using ne by simp
  have going: "going s" and gv: "goal \<notin> visited s"
    and sv: "start \<in> visited s \<or> start \<in> set (stack s)"
    and tree: "\<And>x. x \<in> visited s \<Longrightarrow> \<exists>p. chain (came_from s) x p \<and> path_between g start x p \<and>
                               set p \<subseteq> visited s"
    and stk: "\<And>x. x \<in> set (stack s) \<Longrightarrow> x \<in> visited s \<or> (x = start \<and> came_from s x = None) \<or>
         (\<exists>y \<in> visited s. came_from s x = Some y \<and> adjacent y x \<and> free g x)"
    and clo: "\<And>x n. x \<in> visited s \<Longrightarrow> n \<in> set (get_neighbors g x) \<Longrightarrow>
                n \<in> visited s \<or> n \<in> set (stack s)"
    using inv by (auto simp: dfs_inv_def)
  have mem: "\<And>x. x \<in> set (stack s) \<longleftrightarrow> x = ?c \<or> x \<in> set ?rest"
    using st by (metis in_set_conv_decomp rotate1.simps(2) set_ConsD set_rotate1 list.set_intros(1,2))
  show ?thesis
  proof (cases "?c \<in> visited s")
    case True
    define s1 where "s1 = s\<lparr> stack := ?rest, frontier_cells := frontier_cells s - {?c} \<rparr>"
    have step: "dfs_step g goal s = s1"
      using ne True by (simp add: dfs_step_def Let_def s1_def)
    have "dfs_inv g start goal s1"
      unfolding dfs_inv_def
    proof (intro conjI ballI)
      show "going s1" using going by (simp add: s1_def going_def)
      show "goal \<notin> visited s1" using gv by (simp add: s1_def)
      show "start \<in> visited s1 \<or> start \<in> set (stack s1)"
        using sv True mem by (auto simp: s1_def)
      show "\<exists>p. chain (came_from s1) x p \<and> path_between g start x p \<and> set p \<subseteq> visited s1"
        if "x \<in> visited s1" for x
        using tree [of x] that by (simp add: s1_def)
      show "x \<in> visited s1 \<or> (x = start \<and> came_from s1 x = None) \<or>
         (\<exists>y \<in> visited s1. came_from s1 x = Some y \<and> adjacent y x \<and> free g x)"
        if "x \<in> set (stack s1)" for x
        using stk [of x] that mem by (simp add: s1_def)
      show "n \<in> visited s1 \<or> n \<in> set (stack s1)"
        if "x \<in> visited s1" "n \<in> set (get_neighbors g x)" for x n
        using clo [of x n] that True mem by (auto simp: s1_def)
    qed
    then show ?thesis by (simp add: step)
  next
    case False
    define V where "V = insert ?c (visited s)"
    define s2 where "s2 = s\<lparr> stack := ?rest, frontier_cells := frontier_cells s - {?c},
      visited := V, nodes_visited := nodes_visited s + 1, accepted := accepted s @ [?c] \<rparr>"
    have cin: "?c \<in> set (stack s)" using ne by simp
    obtain pc where pc: "chain (came_from s) ?c pc" "path_between g start ?c pc" "set pc \<subseteq> V"
    proof -
      consider "?c = start \<and> came_from s ?c = None"
        | y where "y \<in> visited s" "came_from s ?c = Some y" "adjacent y ?c" "free g ?c"
        using stk [OF cin] False by blast
      then show ?thesis
      proof cases
        case 1
        then have "chain (came_from s) ?c [?c]" "path_between g start ?c [?c]"
          using fs by (auto intro: chain.root simp: path_between_single)
        then show ?thesis using that [of "[?c]"] by (simp add: V_def)
      next
        case 2
        obtain p where p: "chain (came_from s) y p" "path_between g start y p" "set p \<subseteq> visited s"
          using tree [OF 2(1)] by blast
        have pne: "p \<noteq> []" and lp: "last p = y" using chain_last [OF p(1)] by simp_all
        have "chain (came_from s) ?c (p @ [?c])"
          using 2(2) p(1) by (rule chain.link)
        moreover have "path_between g start ?c (p @ [?c])"
          using p(2) 2(3,4) pne lp by (simp add: path_between_snoc)
        moreover have "set (p @ [?c]) \<subseteq> V" using p(3) by (auto simp: V_def)
        ultimately show ?thesis using that by blast
      qed
    qed
    show ?thesis
    proof (cases "?c = goal")
      case True
      have "dfs_step g goal s = finish ?c s2"
        using ne False True by (simp add: dfs_step_def Let_def s2_def V_def)
      also have "\<dots> = s2\<lparr>found_path := Some pc\<rparr>"
        by (rule finish_chain) (simp add: s2_def pc(1))
      finally have "found g start goal (dfs_step g goal s)"
        using pc(2) True going by (simp add: found_def s2_def going_def)
      then show ?thesis ..
    next
      case ng: False
      let ?ns = "rev (get_neighbors g ?c)"
      define s3 where "s3 = fold (dfs_neighbor ?c) ?ns s2"
      have step: "dfs_step g goal s = s3"
        using ne False ng by (simp add: dfs_step_def Let_def s2_def s3_def V_def)
      have v3: "visited s3 = V" by (simp add: s3_def s2_def)
      have k3: "stack s3 = ?rest @ filter (\<lambda>n. n \<notin> V) ?ns"
        by (simp add: s3_def dfs_fold_stack s2_def)
      have c3: "\<And>x. came_from s3 x =
                  (if x \<in> set (get_neighbors g ?c) \<and> x \<notin> V then Some ?c else came_from s x)"
        by (simp add: s3_def dfs_fold_came_from s2_def)
      have "dfs_inv g start goal s3"
        unfolding dfs_inv_def
      proof (intro conjI ballI)
        show "going s3" using going by (simp add: s3_def going_def s2_def)
        show "goal \<notin> visited s3" using gv ng by (auto simp: v3 V_def)
        show "start \<in> visited s3 \<or> start \<in> set (stack s3)"
          using sv mem by (auto simp: v3 k3 V_def)
        show "\<exists>p. chain (came_from s3) x p \<and> path_between g start x p \<and> set p \<subseteq> visited s3"
          if "x \<in> visited s3" for x
        proof -
          obtain p where p: "chain (came_from s) x p" "path_between g start x p" "set p \<subseteq> V"
          proof (cases "x = ?c")
            case True
            then show ?thesis using pc that by blast
          next
            case False
            then have "x \<in> visited s" using \<open>x \<in> visited s3\<close> by (simp add: v3 V_def)
            then show ?thesis using tree [of x] that by (auto simp: V_def)
          qed
          have "chain (came_from s3) x p"
            using p(1) by (rule chain_agree) (use p(3) c3 in auto)
          then show ?thesis using p by (auto simp: v3)
        qed
        show "x \<in> visited s3 \<or> (x = start \<and> came_from s3 x = None) \<or>
           (\<exists>y \<in> visited s3. came_from s3 x = Some y \<and> adjacent y x \<and> free g x)"
          if "x \<in> set (stack s3)" for x
        proof (cases "x \<in> V")
          case True
          then show ?thesis by (simp add: v3)
        next
          case xv: False
          show ?thesis
          proof (cases "x \<in> set (get_neighbors g ?c)")
            case True
            then have "came_from s3 x = Some ?c" "adjacent ?c x" "free g x"
              using xv by (simp_all add: c3 get_neighbors_iff)
            then show ?thesis by (auto simp: v3 V_def)
          next
            case False
            then have "x \<in> set ?rest" using that xv by (auto simp: k3)
            then have "x \<in> set (stack s)" using mem by blast
            moreover have "came_from s3 x = came_from s x" using False by (simp add: c3)
            moreover have "x \<notin> visited s" using xv by (simp add: V_def)
            ultimately show ?thesis using stk [of x] by (auto simp: v3 V_def)
          qed
        qed
        show "n \<in> visited s3 \<or> n \<in> set (stack s3)"
          if "x \<in> visited s3" "n \<in> set (get_neighbors g x)" for x n
        proof (cases "x = ?c")
          case True
          then show ?thesis using that(2) by (auto simp: v3 k3)
        next
          case False
          then have "x \<in> visited s" using that(1) by (simp add: v3 V_def)
          then have "n \<in> visited s \<or> n \<in> set (stack s)" using clo that(2) by blast
          then show ?thesis using mem by (auto simp: v3 k3 V_def)
        qed
      qed
      then show ?thesis by (simp add: step)
    qed
  qed
qed


lemma dfs_inv_exhausted:
  assumes "dfs_inv g start goal s" and "stack s = []"
  shows "\<not> path_between g start goal p"
proof
  assume "path_between g start goal p"
  then have "goal \<in> visited s"
  proof (induction rule: path_between_induct)
    case start
    then show ?case using assms by (simp add: dfs_inv_def)
  next
    case (step y q x)
    then have "x \<in> set (get_neighbors g y)"
      by (simp add: get_neighbors_iff)
    then show ?case
      using step.IH assms by (auto simp: dfs_inv_def)
  qed
  then show False
    using assms(1) by (simp add: dfs_inv_def)
qed

lemma found_not_going: "found g start goal s \<Longrightarrow> \<not> going s"
  by (auto simp: found_def going_def)

lemma dfs_run_cases:
  assumes "free g start"
  shows "(dfs_inv g start goal (run_dfs g start goal) \<and> stack (run_dfs g start goal) = []) \<or>
         found g start goal (run_dfs g start goal)"
proof -
  let ?I = "\<lambda>s. dfs_inv g start goal s \<or> found g start goal s"
  have "?I (run_dfs g start goal)"
    unfolding run_dfs_def
  proof (rule dfs_loop_invariant)
    show "?I (dfs_init start)" by (simp add: dfs_inv_init)
    show "?I (dfs_step g goal t)" if "?I t" "stack t \<noteq> []" "going t" for t
      using that dfs_step_inv [OF _ _ assms] found_not_going by blast
  qed
  moreover have "stack (run_dfs g start goal) = [] \<or> \<not> going (run_dfs g start goal)"
    unfolding run_dfs_def by (rule dfs_loop_done)
  ultimately show ?thesis
    by (auto simp: dfs_inv_def)
qed

lemma dfs_complete:
  assumes "path_between g start goal p"
  shows "found g start goal (run_dfs g start goal)"
proof -
  have "free g start"
    using assms by (cases p) (auto simp: path_between_def valid_path_def)
  then show ?thesis
    using dfs_run_cases [of g start goal] dfs_inv_exhausted assms by blast
qed

section \<open>Depth-limited search returns only paths within the limit\<close>

lemma dls_fold_came_from:
  "came_from (fold (dls_neighbor c d) ns s) x =
     (if x \<in> set ns \<and> x \<notin> visited s then Some c else came_from s x)"
  by (induction ns arbitrary: s) (auto simp: dls_neighbor_def)

text \<open>
  The depth of the topmost stack entry of a coordinate: the entry that \<open>pop\<close> meets first.
\<close>

definition top_depth :: "(pos \<times> int) list \<Rightarrow> pos \<Rightarrow> int option" where
  "top_depth st = map_of (rev st)"

lemma top_depth_snoc: "top_depth (st @ [(x, d)]) = (top_depth st)(x \<mapsto> d)"
  by (simp add: top_depth_def)

lemma top_depth_push:
  "top_depth (st @ map (\<lambda>n. (n, d)) ns) x = (if x \<in> set ns then Some d else top_depth st x)"
proof (induction ns rule: rev_induct)
  case Nil
  then show ?case by simp
next
  case (snoc n ns)
  have "top_depth (st @ map (\<lambda>n. (n, d)) (ns @ [n])) = (top_depth (st @ map (\<lambda>n. (n, d)) ns))(n \<mapsto> d)"
    using top_depth_snoc [of "st @ map (\<lambda>n. (n, d)) ns" n d] by simp
  then show ?case
    using snoc by auto
qed

lemma top_depth_in: "top_depth st x = Some d \<Longrightarrow> (x, d) \<in> set st"
  unfolding top_depth_def by (metis map_of_SomeD set_rev)

text \<open>
  The invariant of the depth-limited loop while it is going. Every visited coordinate
  has a predecessor chain that is a path from the start of at most \<open>depth_limit + 1\<close>
  cells; no stack entry is deeper than the limit; the topmost entry of an unvisited
  coordinate is the start at depth 0 or carries the number of cells of the chain of its
  visited predecessor.
\<close>

definition dls_inv :: "'a picker_scheme \<Rightarrow> pos \<Rightarrow> int \<Rightarrow> run_state \<Rightarrow> bool" where
  "dls_inv g start depth_limit s \<longleftrightarrow>
     going s \<and>
     (\<forall>x \<in> visited s. \<exists>p. chain (came_from s) x p \<and> path_between g start x p \<and>
                               set p \<subseteq> visited s \<and> int (length p) \<le> depth_limit + 1) \<and>
     (\<forall>e \<in> set (stack_d s). snd e \<le> depth_limit) \<and>
     (\<forall>x d. top_depth (stack_d s) x = Some d \<longrightarrow>
         x \<in> visited s \<or> (x = start \<and> came_from s x = None \<and> d = 0) \<or>
         (\<exists>y \<in> visited s. \<exists>p. came_from s x = Some y \<and> adjacent y x \<and> free g x \<and>
                                 chain (came_from s) y p \<and> int (length p) = d))"

definition found_within :: "'a picker_scheme \<Rightarrow> pos \<Rightarrow> pos \<Rightarrow> int \<Rightarrow> run_state \<Rightarrow> bool" where
  "found_within g start goal depth_limit s \<longleftrightarrow>
     abort s = None \<and>
     (\<exists>p. found_path s = Some p \<and> path_between g start goal p \<and>
          int (length p) \<le> depth_limit + 1)"

lemma dls_inv_init: "0 \<le> depth_limit \<Longrightarrow> dls_inv g start depth_limit (dls_init start)"
  by (simp add: dls_inv_def dls_init_def blank_def going_def top_depth_def)

lemma dls_step_inv:
  assumes inv: "dls_inv g start depth_limit s" and ne: "stack_d s \<noteq> []" and fs: "free g start"
  shows "dls_inv g start depth_limit (dls_step g goal depth_limit s) \<or>
         found_within g start goal depth_limit (dls_step g goal depth_limit s)"
proof -
  let ?c = "fst (last (stack_d s))"
  let ?d = "snd (last (stack_d s))"
  let ?rest = "butlast (stack_d s)"
  have st: "stack_d s = ?rest @ [(?c, ?d)]" using ne by simp
  have going: "going s"
    using inv by (simp add: dls_inv_def)
  have tree: "\<exists>p. chain (came_from s) x p \<and> path_between g start x p \<and>
                set p \<subseteq> visited s \<and> int (length p) \<le> depth_limit + 1"
    if "x \<in> visited s" for x
    using inv that unfolding dls_inv_def by blast
  have lim: "snd e \<le> depth_limit" if "e \<in> set (stack_d s)" for e
    using inv that unfolding dls_inv_def by blast
  have top: "x \<in> visited s \<or> (x = start \<and> came_from s x = None \<and> d = 0) \<or>
         (\<exists>y \<in> visited s. \<exists>p. came_from s x = Some y \<and> adjacent y x \<and> free g x \<and>
                                 chain (came_from s) y p \<and> int (length p) = d)"
    if "top_depth (stack_d s) x = Some d" for x d
    using inv that unfolding dls_inv_def by blast
  have td: "top_depth (stack_d s) = (top_depth ?rest)(?c \<mapsto> ?d)"
    using top_depth_snoc [of ?rest ?c ?d] st by simp
  have rest_sub: "set ?rest \<subseteq> set (stack_d s)"
    by (auto dest: in_set_butlastD)
  have dl: "?d \<le> depth_limit"
    using lim [of "last (stack_d s)"] ne by simp
  show ?thesis
  proof (cases "?c \<in> visited s")
    case True
    define s1 where "s1 = s\<lparr> stack_d := ?rest, frontier_cells := frontier_cells s - {?c} \<rparr>"
    have step: "dls_step g goal depth_limit s = s1"
      using ne True by (simp add: dls_step_def Let_def s1_def)
    have "dls_inv g start depth_limit s1"
      unfolding dls_inv_def
    proof (intro conjI ballI allI impI)
      show "going s1" using going by (simp add: s1_def going_def)
      show "\<exists>p. chain (came_from s1) x p \<and> path_between g start x p \<and> set p \<subseteq> visited s1 \<and>
                int (length p) \<le> depth_limit + 1"
        if "x \<in> visited s1" for x
        using tree [of x] that by (simp add: s1_def)
      show "snd e \<le> depth_limit" if "e \<in> set (stack_d s1)" for e
        using lim [of e] that rest_sub by (auto simp: s1_def)
      show "x \<in> visited s1 \<or> (x = start \<and> came_from s1 x = None \<and> d = 0) \<or>
         (\<exists>y \<in> visited s1. \<exists>p. came_from s1 x = Some y \<and> adjacent y x \<and> free g x \<and>
                                 chain (came_from s1) y p \<and> int (length p) = d)"
        if "top_depth (stack_d s1) x = Some d" for x d
      proof (cases "x = ?c")
        case True
        then show ?thesis using \<open>?c \<in> visited s\<close> by (simp add: s1_def)
      next
        case False
        then have "top_depth (stack_d s) x = Some d"
          using that td by (simp add: s1_def)
        then show ?thesis using top [of x d] by (simp add: s1_def)
      qed
    qed
    then show ?thesis by (simp add: step)
  next
    case False
    define V where "V = insert ?c (visited s)"
    define s2 where "s2 = s\<lparr> stack_d := ?rest, frontier_cells := frontier_cells s - {?c},
      visited := V, nodes_visited := nodes_visited s + 1, accepted := accepted s @ [?c] \<rparr>"
    have tc: "top_depth (stack_d s) ?c = Some ?d" using td by simp
    obtain pc where pc: "chain (came_from s) ?c pc" "path_between g start ?c pc" "set pc \<subseteq> V"
      "int (length pc) = ?d + 1"
    proof -
      consider "?c = start \<and> came_from s ?c = None \<and> ?d = 0"
        | y p where "y \<in> visited s" "came_from s ?c = Some y" "adjacent y ?c" "free g ?c"
            "chain (came_from s) y p" "int (length p) = ?d"
        using top [OF tc] False by blast
      then show ?thesis
      proof cases
        case 1
        then have "chain (came_from s) ?c [?c]" "path_between g start ?c [?c]"
          using fs by (auto intro: chain.root simp: path_between_single)
        then show ?thesis using that [of "[?c]"] 1 by (simp add: V_def)
      next
        case 2
        obtain p' where p': "chain (came_from s) y p'" "path_between g start y p'"
          "set p' \<subseteq> visited s"
          using tree [OF 2(1)] by blast
        have pp: "p' = p" using chain_unique [OF p'(1) 2(5)] .
        have pne: "p \<noteq> []" and lp: "last p = y" using chain_last [OF 2(5)] by simp_all
        have "chain (came_from s) ?c (p @ [?c])"
          using 2(2) 2(5) by (rule chain.link)
        moreover have "path_between g start ?c (p @ [?c])"
          using p'(2) 2(3,4) pne lp pp by (simp add: path_between_snoc)
        moreover have "set (p @ [?c]) \<subseteq> V" using p'(3) pp by (auto simp: V_def)
        moreover have "int (length (p @ [?c])) = ?d + 1" using 2(6) by simp
        ultimately show ?thesis using that by blast
      qed
    qed
    have pcl: "int (length pc) \<le> depth_limit + 1" using pc(4) dl by simp
    have tree2: "\<exists>p. chain (came_from s) x p \<and> path_between g start x p \<and> set p \<subseteq> V \<and>
                int (length p) \<le> depth_limit + 1" if "x \<in> V" for x
    proof (cases "x = ?c")
      case True
      then show ?thesis using pc pcl by blast
    next
      case False
      then have "x \<in> visited s" using that by (simp add: V_def)
      then show ?thesis using tree [of x] by (auto simp: V_def)
    qed
    have top2: "x \<in> V \<or> (x = start \<and> came_from s x = None \<and> d = 0) \<or>
         (\<exists>y \<in> V. \<exists>p. came_from s x = Some y \<and> adjacent y x \<and> free g x \<and>
                                 chain (came_from s) y p \<and> int (length p) = d)"
      if "top_depth ?rest x = Some d" for x d
    proof (cases "x = ?c")
      case True
      then show ?thesis by (simp add: V_def)
    next
      case False
      then have "top_depth (stack_d s) x = Some d"
        using that td by simp
      then show ?thesis using top [of x d] by (auto simp: V_def)
    qed
    show ?thesis
    proof (cases "?c = goal")
      case True
      have "dls_step g goal depth_limit s = finish ?c s2"
        using ne False True by (simp add: dls_step_def Let_def s2_def V_def)
      also have "\<dots> = s2\<lparr>found_path := Some pc\<rparr>"
        by (rule finish_chain) (simp add: s2_def pc(1))
      finally have "found_within g start goal depth_limit (dls_step g goal depth_limit s)"
        using pc(2) pcl True going by (simp add: found_within_def s2_def going_def)
      then show ?thesis ..
    next
      case ng: False
      show ?thesis
      proof (cases "?d \<ge> depth_limit")
        case True
        have step: "dls_step g goal depth_limit s = s2"
          using ne False ng True by (simp add: dls_step_def Let_def s2_def V_def)
        have "dls_inv g start depth_limit s2"
          unfolding dls_inv_def
        proof (intro conjI ballI allI impI)
          show "going s2" using going by (simp add: s2_def going_def)
          show "\<exists>p. chain (came_from s2) x p \<and> path_between g start x p \<and> set p \<subseteq> visited s2 \<and>
                int (length p) \<le> depth_limit + 1"
            if "x \<in> visited s2" for x
            using tree2 [of x] that by (simp add: s2_def)
          show "snd e \<le> depth_limit" if "e \<in> set (stack_d s2)" for e
            using lim [of e] that rest_sub by (auto simp: s2_def)
          show "x \<in> visited s2 \<or> (x = start \<and> came_from s2 x = None \<and> d = 0) \<or>
             (\<exists>y \<in> visited s2. \<exists>p. came_from s2 x = Some y \<and> adjacent y x \<and> free g x \<and>
                                 chain (came_from s2) y p \<and> int (length p) = d)"
            if "top_depth (stack_d s2) x = Some d" for x d
            using top2 [of x d] that by (simp add: s2_def)
        qed
        then show ?thesis by (simp add: step)
      next
        case deeper: False
        let ?ns = "rev (get_neighbors g ?c)"
        let ?new = "filter (\<lambda>n. n \<notin> V) ?ns"
        define s3 where "s3 = fold (dls_neighbor ?c ?d) ?ns s2"
        have step: "dls_step g goal depth_limit s = s3"
          using ne False ng deeper by (simp add: dls_step_def Let_def s2_def s3_def V_def)
        have v3: "visited s3 = V" by (simp add: s3_def s2_def)
        have k3: "stack_d s3 = ?rest @ map (\<lambda>n. (n, ?d + 1)) ?new"
          by (simp add: s3_def dls_fold_stack s2_def)
        have c3: "\<And>x. came_from s3 x =
                    (if x \<in> set (get_neighbors g ?c) \<and> x \<notin> V then Some ?c else came_from s x)"
          by (simp add: s3_def dls_fold_came_from s2_def)
        have agree: "chain (came_from s3) x p" if "chain (came_from s) x p" "set p \<subseteq> V" for x p
          using that(1) by (rule chain_agree) (use that(2) c3 in auto)
        have "dls_inv g start depth_limit s3"
          unfolding dls_inv_def
        proof (intro conjI ballI allI impI)
          show "going s3" using going by (simp add: s3_def going_def s2_def)
          show "\<exists>p. chain (came_from s3) x p \<and> path_between g start x p \<and> set p \<subseteq> visited s3 \<and>
                int (length p) \<le> depth_limit + 1"
            if xv3: "x \<in> visited s3" for x
          proof -
            obtain p where p: "chain (came_from s) x p" "path_between g start x p" "set p \<subseteq> V"
              "int (length p) \<le> depth_limit + 1"
              using tree2 [of x] xv3 by (auto simp: v3)
            have "chain (came_from s3) x p"
              using agree p(1,3) by blast
            then show ?thesis
              using p unfolding v3 by blast
          qed
          show "snd e \<le> depth_limit" if "e \<in> set (stack_d s3)" for e
            using lim [of e] that rest_sub deeper by (auto simp: k3)
          show "x \<in> visited s3 \<or> (x = start \<and> came_from s3 x = None \<and> d = 0) \<or>
             (\<exists>y \<in> visited s3. \<exists>p. came_from s3 x = Some y \<and> adjacent y x \<and> free g x \<and>
                                 chain (came_from s3) y p \<and> int (length p) = d)"
            if t: "top_depth (stack_d s3) x = Some d" for x d
          proof (cases "x \<in> V")
            case True
            then show ?thesis by (simp add: v3)
          next
            case xv: False
            show ?thesis
            proof (cases "x \<in> set (get_neighbors g ?c)")
              case True
              then have "x \<in> set ?new" using xv by simp
              then have "d = ?d + 1"
                using t unfolding k3 top_depth_push by (auto split: if_splits)
              moreover have "came_from s3 x = Some ?c" "adjacent ?c x" "free g x"
                using xv True by (simp_all add: c3 get_neighbors_iff)
              moreover have "chain (came_from s3) ?c pc"
                using agree pc by blast
              ultimately show ?thesis
                using pc(4) by (auto simp: v3 V_def)
            next
              case False
              then have "x \<notin> set ?new" by simp
              then have "top_depth ?rest x = Some d"
                using t unfolding k3 top_depth_push by (auto split: if_splits)
              moreover have cf: "came_from s3 x = came_from s x" using False by (simp add: c3)
              ultimately consider "x = start \<and> came_from s x = None \<and> d = 0"
                | y p where "y \<in> V" "came_from s x = Some y" "adjacent y x" "free g x"
                    "chain (came_from s) y p" "int (length p) = d"
                using top2 [of x d] xv by blast
              then show ?thesis
              proof cases
                case 1
                then have "came_from s3 x = None" using cf by metis
                then show ?thesis using 1 by blast
              next
                case 2
                obtain p' where p': "chain (came_from s) y p'" "set p' \<subseteq> V"
                  using tree2 [OF 2(1)] by blast
                have "p' = p" using chain_unique [OF p'(1) 2(5)] .
                then have "chain (came_from s3) y p" using agree p' by blast
                then show ?thesis using 2 cf by (auto simp: v3)
              qed
            qed
          qed
        qed
        then show ?thesis by (simp add: step)
      qed
    qed
  qed
qed


lemma found_within_not_going: "found_within g start goal depth_limit s \<Longrightarrow> \<not> going s"
  by (auto simp: found_within_def going_def)

lemma dls_run_cases:
  assumes "free g start" and "0 \<le> depth_limit"
  shows "(dls_inv g start depth_limit (run_dls g start goal depth_limit) \<and>
          stack_d (run_dls g start goal depth_limit) = []) \<or>
         found_within g start goal depth_limit (run_dls g start goal depth_limit)"
proof -
  let ?I = "\<lambda>s. dls_inv g start depth_limit s \<or> found_within g start goal depth_limit s"
  let ?r = "run_dls g start goal depth_limit"
  have "?I ?r"
    unfolding run_dls_def
  proof (rule dls_loop_invariant)
    show "?I (dls_init start)" using assms(2) by (simp add: dls_inv_init)
    show "?I (dls_step g goal depth_limit t)" if "?I t" "stack_d t \<noteq> []" "going t" for t
      using that dls_step_inv [OF _ _ assms(1)] found_within_not_going by blast
  qed
  moreover have "stack_d ?r = [] \<or> \<not> going ?r"
    unfolding run_dls_def by (rule dls_loop_done)
  ultimately show ?thesis
    by (auto simp: dls_inv_def)
qed

text \<open>
  A depth-limited run ends normally; it returns a path from the start to the goal of at
  most \<open>depth_limit + 1\<close> cells or reports that there is no path within the limit. So it
  reports failure whenever every path has more than \<open>depth_limit + 1\<close> cells.
\<close>

lemma dls_sound:
  assumes "free g start" and "0 \<le> depth_limit"
  shows "abort (run_dls g start goal depth_limit) = None \<and>
         (case result_dls depth_limit (run_dls g start goal depth_limit) of
            PathFound p \<Rightarrow> path_between g start goal p \<and> int (length p) \<le> depth_limit + 1
          | NoPathFound \<Rightarrow> False
          | NoPathWithinLimit l \<Rightarrow> l = depth_limit)"
proof -
  let ?r = "run_dls g start goal depth_limit"
  consider "dls_inv g start depth_limit ?r" | "found_within g start goal depth_limit ?r"
    using dls_run_cases [OF assms] by blast
  then show ?thesis
  proof cases
    case 1
    then have "found_path ?r = None" "abort ?r = None"
      by (simp_all add: dls_inv_def going_def)
    then show ?thesis by (simp add: result_dls_def)
  next
    case 2
    then obtain p where "found_path ?r = Some p" "path_between g start goal p"
      "int (length p) \<le> depth_limit + 1" "abort ?r = None"
      by (auto simp: found_within_def)
    moreover from this have "p \<noteq> []"
      by (auto simp: path_between_def valid_path_def)
    ultimately show ?thesis by (simp add: result_dls_def)
  qed
qed

lemma dls_fails_beyond_limit:
  assumes "free g start" and "0 \<le> depth_limit"
    and "\<And>p. path_between g start goal p \<Longrightarrow> depth_limit + 1 < int (length p)"
  shows "result_dls depth_limit (run_dls g start goal depth_limit) = NoPathWithinLimit depth_limit"
  using dls_sound [OF assms(1,2), of goal] assms(3)
  by (cases "result_dls depth_limit (run_dls g start goal depth_limit)") fastforce+


text \<open>
  Claim C4 fails on the code in its second half. On the grid of two rows and three columns
  without obstacles, with start (1,0), goal (1,2) and depth limit 3, the path
  (1,0), (1,1), (1,2) has 3 cells, which is at most \<open>depth_limit + 1\<close>. The run visits
  (0,0), (0,1), (0,2) and then (1,1) at depth 3, where it is not expanded; the entry of
  (1,1) at depth 1 is skipped as already visited, and the run reports that there is no
  path within the limit.
\<close>

definition open_grid :: picker where
  "open_grid = \<lparr> rows = 2, cols = 3, grid = [[EMPTY, EMPTY, EMPTY], [START, EMPTY, GOAL]] \<rparr>"

theorem dls_misses_short_path:
  "wf_grid open_grid \<and>
   path_between open_grid (1, 0) (1, 2) [(1, 0), (1, 1), (1, 2)] \<and>
   int (length [(1, 0), (1, 1), (1, 2) :: pos]) \<le> 3 + 1 \<and>
   accepted (run_dls open_grid (1, 0) (1, 2) 3) = [(1, 0), (0, 0), (0, 1), (0, 2), (1, 1)] \<and>
   abort (run_dls open_grid (1, 0) (1, 2) 3) = None \<and>
   result_dls 3 (run_dls open_grid (1, 0) (1, 2) 3) = NoPathWithinLimit 3"
  by code_simp

section \<open>Searching level by level\<close>

text \<open>
  Breadth-first and uniform-cost search expand coordinates in the order of their distance
  from the start. \<open>layered g start goal E F cf d m\<close> describes such a search between two
  expansions: \<open>E\<close> are the expanded coordinates, \<open>F\<close> is the frontier, \<open>cf\<close> the
  predecessor map, \<open>d x\<close> the number of steps of the chain of \<open>x\<close>, and \<open>m\<close> the level
  reached: expanded coordinates are at most \<open>m\<close> steps away, the frontier is \<open>m\<close> or
  \<open>m + 1\<close> steps away, and every neighbour of an expanded coordinate is known and at most
  one step further.
\<close>

definition layered ::
  "'a picker_scheme \<Rightarrow> pos \<Rightarrow> pos \<Rightarrow> pos set \<Rightarrow> pos set \<Rightarrow> (pos \<rightharpoonup> pos) \<Rightarrow> (pos \<Rightarrow> int) \<Rightarrow> int \<Rightarrow> bool"
where
  "layered g start goal E F cf d m \<longleftrightarrow>
     E \<inter> F = {} \<and> start \<in> E \<union> F \<and> goal \<notin> E \<and>
     (\<forall>x \<in> E \<union> F. \<exists>p. chain cf x p \<and> path_between g start x p \<and> set p \<subseteq> E \<union> F \<and>
                           int (length p) = d x + 1) \<and>
     (\<forall>x \<in> E. d x \<le> m) \<and>
     (\<forall>y \<in> F. m \<le> d y \<and> d y \<le> m + 1) \<and>
     (\<forall>x \<in> E. \<forall>n \<in> set (get_neighbors g x). n \<in> E \<union> F \<and> d n \<le> d x + 1)"

lemma chain_root_None: "chain cf x p \<Longrightarrow> cf (hd p) = None"
proof (induction rule: chain.induct)
  case (root cf x)
  then show ?case by simp
next
  case (link cf x y p)
  then show ?case using chain_last [OF link.hyps(2)] by simp
qed

lemma chain_to_root:
  assumes "chain cf x p" and "hd p = x"
  shows "p = [x]"
  using assms(1)
proof (cases rule: chain.cases)
  case root
  then show ?thesis by simp
next
  case (link y q)
  then have "cf x = Some y" by simp
  moreover have "cf x = None"
    using chain_root_None [OF assms(1)] assms(2) by simp
  ultimately show ?thesis by simp
qed

lemma layered_start_depth:
  assumes "layered g start goal E F cf d m"
  shows "d start = 0"
proof -
  obtain p where p: "chain cf start p" "path_between g start start p" "int (length p) = d start + 1"
    using assms unfolding layered_def by blast
  have "p = [start]"
    using chain_to_root [OF p(1)] p(2) by (simp add: path_between_def)
  then show ?thesis using p(3) by simp
qed

text \<open>Expanding a frontier coordinate of least depth that is not the goal.\<close>

lemma layered_expand:
  assumes lay: "layered g start goal E F cf d m"
    and c: "c \<in> F" "c \<noteq> goal" and least: "\<And>y. y \<in> F \<Longrightarrow> d c \<le> d y"
    and N: "N = set (get_neighbors g c) - (E \<union> F)"
    and cf': "\<And>x. cf' x = (if x \<in> N then Some c else cf x)"
    and d': "\<And>x. d' x = (if x \<in> N then d c + 1 else d x)"
  shows "layered g start goal (insert c E) ((F - {c}) \<union> N) cf' d' (d c)"
proof -
  have disj: "E \<inter> F = {}" and st: "start \<in> E \<union> F" and gl: "goal \<notin> E"
    and lE: "\<And>x. x \<in> E \<Longrightarrow> d x \<le> m"
    and lF: "\<And>y. y \<in> F \<Longrightarrow> m \<le> d y \<and> d y \<le> m + 1"
    using lay unfolding layered_def by blast+
  have tree: "\<exists>p. chain cf x p \<and> path_between g start x p \<and> set p \<subseteq> E \<union> F \<and>
                  int (length p) = d x + 1" if "x \<in> E \<union> F" for x
    using lay that unfolding layered_def by blast
  have nb: "n \<in> E \<union> F \<and> d n \<le> d x + 1" if "x \<in> E" "n \<in> set (get_neighbors g x)" for x n
    using lay that unfolding layered_def by blast
  have agree: "chain cf' x p" if "chain cf x p" "set p \<subseteq> E \<union> F" for x p
    using that(1) by (rule chain_agree) (use that(2) cf' N in auto)
  have tree': "\<exists>p. chain cf' x p \<and> path_between g start x p \<and>
                 set p \<subseteq> insert c E \<union> ((F - {c}) \<union> N) \<and> int (length p) = d' x + 1"
    if x: "x \<in> insert c E \<union> ((F - {c}) \<union> N)" for x
  proof (cases "x \<in> N")
    case False
    then have xin: "x \<in> E \<union> F" using x c(1) by auto
    then obtain p where p: "chain cf x p" "path_between g start x p" "set p \<subseteq> E \<union> F"
      "int (length p) = d x + 1"
      using tree by blast
    have "chain cf' x p" using agree p(1,3) by blast
    moreover have "set p \<subseteq> insert c E \<union> ((F - {c}) \<union> N)" using p(3) by auto
    moreover have "d' x = d x" using False by (simp add: d')
    ultimately show ?thesis using p by auto
  next
    case True
    obtain p where p: "chain cf c p" "path_between g start c p" "set p \<subseteq> E \<union> F"
      "int (length p) = d c + 1"
      using tree [of c] c(1) by blast
    have pne: "p \<noteq> []" and lp: "last p = c" using chain_last [OF p(1)] by simp_all
    have adj: "adjacent c x" "free g x"
      using True N by (simp_all add: get_neighbors_iff)
    have "chain cf' c p" using agree p(1,3) by blast
    moreover have "cf' x = Some c" using True by (simp add: cf')
    ultimately have "chain cf' x (p @ [x])" by (simp add: chain.link)
    moreover have "path_between g start x (p @ [x])"
      using p(2) adj pne lp by (simp add: path_between_snoc)
    moreover have "set (p @ [x]) \<subseteq> insert c E \<union> ((F - {c}) \<union> N)"
      using p(3) True by auto
    moreover have "int (length (p @ [x])) = d' x + 1"
      using p(4) True by (simp add: d')
    ultimately show ?thesis by blast
  qed
  have mc: "m \<le> d c" "d c \<le> m + 1" using lF [OF c(1)] by simp_all
  show ?thesis
    unfolding layered_def
  proof (intro conjI ballI)
    show "insert c E \<inter> ((F - {c}) \<union> N) = {}" using disj N c(1) by auto
    show "start \<in> insert c E \<union> ((F - {c}) \<union> N)" using st by auto
    show "goal \<notin> insert c E" using gl c(2) by auto
    show "\<exists>p. chain cf' x p \<and> path_between g start x p \<and>
             set p \<subseteq> insert c E \<union> ((F - {c}) \<union> N) \<and> int (length p) = d' x + 1"
      if "x \<in> insert c E \<union> ((F - {c}) \<union> N)" for x
      using tree' that by blast
    show "d' x \<le> d c" if "x \<in> insert c E" for x
    proof -
      have "x \<notin> N" using that N c(1) by auto
      then show ?thesis using that lE [of x] mc by (auto simp: d')
    qed
    show "d c \<le> d' y" "d' y \<le> d c + 1" if "y \<in> (F - {c}) \<union> N" for y
      using that least [of y] lF [of y] mc by (auto simp: d')
    show "n \<in> insert c E \<union> ((F - {c}) \<union> N)" "d' n \<le> d' x + 1"
      if "x \<in> insert c E" "n \<in> set (get_neighbors g x)" for x n
    proof -
      have xN: "x \<notin> N" using that(1) N c(1) by auto
      show "n \<in> insert c E \<union> ((F - {c}) \<union> N)"
        using that nb [of x n] N by auto
      show "d' n \<le> d' x + 1"
      proof (cases "x = c")
        case True
        show ?thesis
        proof (cases "n \<in> N")
          case True
          then show ?thesis using \<open>x = c\<close> xN by (simp add: d')
        next
          case False
          then have "n \<in> E \<union> F" using that(2) True N by auto
          then have "d n \<le> m + 1" using lE [of n] lF [of n] by auto
          then show ?thesis using False True xN mc by (simp add: d')
        qed
      next
        case False
        then have xE: "x \<in> E" using that(1) by simp
        then have "n \<in> E \<union> F" "d n \<le> d x + 1" using nb that(2) by blast+
        moreover have "n \<notin> N" using \<open>n \<in> E \<union> F\<close> N by auto
        ultimately show ?thesis using xN by (simp add: d')
      qed
    qed
  qed
qed

text \<open>
  When the goal is a frontier coordinate of least depth, no path from the start to the
  goal is shorter than its chain.
\<close>

lemma layered_short_paths:
  assumes lay: "layered g start goal E F cf d m"
    and c: "goal \<in> F" and least: "\<And>y. y \<in> F \<Longrightarrow> d goal \<le> d y"
    and q: "path_between g start x q"
  shows "int (length q) \<le> d goal \<longrightarrow> x \<in> E \<and> d x + 1 \<le> int (length q)"
  using q
proof (induction rule: path_between_induct)
  case start
  show ?case
  proof
    assume "int (length [start]) \<le> d goal"
    then have pos: "1 \<le> d goal" by simp
    have d0: "d start = 0" using layered_start_depth [OF lay] .
    have "start \<notin> F" using least [of start] d0 pos by auto
    then have "start \<in> E" using lay unfolding layered_def by blast
    then show "start \<in> E \<and> d start + 1 \<le> int (length [start])" using d0 by simp
  qed
next
  case (step y q' x)
  show ?case
  proof
    assume len: "int (length (q' @ [x])) \<le> d goal"
    then have "int (length q') \<le> d goal" by simp
    then have y: "y \<in> E" "d y + 1 \<le> int (length q')" using step.IH by simp_all
    have "x \<in> set (get_neighbors g y)" using step.hyps by (simp add: get_neighbors_iff)
    then have x: "x \<in> E \<union> F" "d x \<le> d y + 1"
      using lay y(1) unfolding layered_def by blast+
    have dx: "d x + 1 \<le> int (length (q' @ [x]))" using x(2) y(2) by simp
    then have "x \<notin> F" using least [of x] len by auto
    then show "x \<in> E \<and> d x + 1 \<le> int (length (q' @ [x]))" using x(1) dx by simp
  qed
qed

lemma layered_goal_shortest:
  assumes lay: "layered g start goal E F cf d m"
    and c: "goal \<in> F" and least: "\<And>y. y \<in> F \<Longrightarrow> d goal \<le> d y"
    and q: "path_between g start goal q"
  shows "d goal + 1 \<le> int (length q)"
proof (rule ccontr)
  assume "\<not> d goal + 1 \<le> int (length q)"
  then have "int (length q) \<le> d goal" by simp
  then have "goal \<in> E"
    using layered_short_paths [OF lay c least q] by simp
  then show False using lay unfolding layered_def by blast
qed

lemma layered_exhausted:
  assumes lay: "layered g start goal E {} cf d m"
  shows "\<not> path_between g start goal q"
proof
  assume "path_between g start goal q"
  then have "goal \<in> E"
  proof (induction rule: path_between_induct)
    case start
    then show ?case using lay unfolding layered_def by blast
  next
    case (step y q x)
    then have "x \<in> set (get_neighbors g y)" by (simp add: get_neighbors_iff)
    then show ?case using lay step.IH unfolding layered_def by blast
  qed
  then show False using lay unfolding layered_def by blast
qed

section \<open>Breadth-first search returns a shortest path\<close>

lemma sorted_map_const: "sorted (map (\<lambda>x. k :: int) xs)"
  by (induction xs) auto

text \<open>What the \<open>for\<close> loop of the breadth-first run does to each variable.\<close>

lemma bfs_fold_visited: "visited (fold (bfs_neighbor c) ns s) = visited s \<union> set ns"
  by (induction ns arbitrary: s) (auto simp: bfs_neighbor_def)

lemma bfs_fold_queue:
  "distinct ns \<Longrightarrow>
     queue (fold (bfs_neighbor c) ns s) = queue s @ filter (\<lambda>n. n \<notin> visited s) ns"
proof (induction ns arbitrary: s)
  case Nil
  then show ?case by simp
next
  case (Cons n ns)
  have "filter (\<lambda>x. x \<notin> insert n (visited s)) ns = filter (\<lambda>x. x \<notin> visited s) ns"
    using Cons.prems by (intro filter_cong) auto
  then show ?case
    using Cons by (simp add: bfs_neighbor_def)
qed

lemma bfs_fold_generated:
  "distinct ns \<Longrightarrow>
     generated (fold (bfs_neighbor c) ns s) = generated s @ filter (\<lambda>n. n \<notin> visited s) ns"
proof (induction ns arbitrary: s)
  case Nil
  then show ?case by simp
next
  case (Cons n ns)
  have "filter (\<lambda>x. x \<notin> insert n (visited s)) ns = filter (\<lambda>x. x \<notin> visited s) ns"
    using Cons.prems by (intro filter_cong) auto
  then show ?case
    using Cons by (simp add: bfs_neighbor_def)
qed

lemma bfs_fold_came_from:
  "came_from (fold (bfs_neighbor c) ns s) x =
     (if x \<in> set ns \<and> x \<notin> visited s then Some c else came_from s x)"
  by (induction ns arbitrary: s) (auto simp: bfs_neighbor_def)

lemma bfs_fold_same [simp]:
  "accepted (fold (bfs_neighbor c) ns s) = accepted s"
  "found_path (fold (bfs_neighbor c) ns s) = found_path s"
  "abort (fold (bfs_neighbor c) ns s) = abort s"
  by (induction ns arbitrary: s) (simp_all add: bfs_neighbor_def)

text \<open>
  The invariant of the breadth-first loop while it is going: the coordinates generated
  are the dequeued ones followed by the queue, without repetition, and they are exactly
  the visited set; the dequeued coordinates and the queue form a layered search in which
  the queue is sorted by depth.
\<close>

definition bfs_inv :: "'a picker_scheme \<Rightarrow> pos \<Rightarrow> pos \<Rightarrow> run_state \<Rightarrow> bool" where
  "bfs_inv g start goal s \<longleftrightarrow>
     going s \<and> generated s = accepted s @ queue s \<and> distinct (generated s) \<and>
     visited s = set (generated s) \<and>
     (\<exists>d m. layered g start goal (set (accepted s)) (set (queue s)) (came_from s) d m \<and>
            sorted (map d (queue s)))"

text \<open>The state after a successful run whose path no other path undercuts.\<close>

definition shortest_found :: "'a picker_scheme \<Rightarrow> pos \<Rightarrow> pos \<Rightarrow> run_state \<Rightarrow> bool" where
  "shortest_found g start goal s \<longleftrightarrow>
     abort s = None \<and>
     (\<exists>p. found_path s = Some p \<and> path_between g start goal p \<and>
          (\<forall>q. path_between g start goal q \<longrightarrow> length p \<le> length q))"

lemma bfs_inv_init:
  assumes "free g start"
  shows "bfs_inv g start goal (bfs_init start)"
proof -
  have "layered g start goal {} {start} Map.empty (\<lambda>x. 0) 0"
    unfolding layered_def using assms
    by (auto intro!: exI [of _ "[start]"] chain.root simp: path_between_single)
  then have "\<exists>d m. layered g start goal {} {start} Map.empty d m \<and> sorted (map d [start])"
    by (intro exI [of _ "\<lambda>x. 0"] exI [of _ 0]) simp
  then show ?thesis
    by (simp add: bfs_inv_def bfs_init_def blank_def going_def)
qed

lemma bfs_step_inv:
  assumes inv: "bfs_inv g start goal s" and ne: "queue s \<noteq> []"
  shows "(bfs_inv g start goal (bfs_step g goal s) \<or>
          shortest_found g start goal (bfs_step g goal s)) \<and>
         distinct (generated (bfs_step g goal s))"
proof -
  obtain c rest where q: "queue s = c # rest"
    using ne by (cases "queue s") auto
  have going: "going s" and gen: "generated s = accepted s @ c # rest"
    and dist: "distinct (accepted s @ c # rest)" and vis: "visited s = set (accepted s @ c # rest)"
    using inv q by (auto simp: bfs_inv_def)
  obtain d m where lay: "layered g start goal (set (accepted s)) (set (c # rest)) (came_from s) d m"
    and srt: "sorted (map d (c # rest))"
    using inv q unfolding bfs_inv_def by auto
  let ?E = "set (accepted s)" and ?F = "set (c # rest)"
  have least: "d c \<le> d y" if "y \<in> ?F" for y
    using srt that by auto
  define s1 where "s1 = s\<lparr> queue := rest, frontier_cells := frontier_cells s - {c},
    nodes_visited := nodes_visited s + 1, accepted := accepted s @ [c] \<rparr>"
  show ?thesis
  proof (cases "c = goal")
    case True
    obtain p where p: "chain (came_from s) goal p" "path_between g start goal p"
      "int (length p) = d goal + 1"
      using lay True unfolding layered_def by fastforce
    have "bfs_step g goal s = finish c s1"
      using True by (simp add: bfs_step_def q s1_def)
    also have "\<dots> = s1\<lparr>found_path := Some p\<rparr>"
      using True by (intro finish_chain) (simp add: s1_def p(1))
    finally have step: "bfs_step g goal s = s1\<lparr>found_path := Some p\<rparr>" .
    have "length p \<le> length q'" if "path_between g start goal q'" for q'
    proof -
      have "d goal + 1 \<le> int (length q')"
        using layered_goal_shortest [OF lay _ _ that] least True by auto
      then show ?thesis using p(3) by simp
    qed
    then have "shortest_found g start goal (bfs_step g goal s)"
      using p(2) going by (auto simp: shortest_found_def step s1_def going_def)
    moreover have "distinct (generated (bfs_step g goal s))"
      using dist gen by (simp add: step s1_def)
    ultimately show ?thesis by blast
  next
    case ng: False
    let ?ns = "get_neighbors g c"
    let ?new = "filter (\<lambda>n. n \<notin> visited s) ?ns"
    define N where "N = set ?ns - (?E \<union> ?F)"
    define cf' where "cf' = came_from (fold (bfs_neighbor c) ?ns s1)"
    define d' where "d' = (\<lambda>x. if x \<in> N then d c + 1 else d x)"
    define s3 where "s3 = fold (bfs_neighbor c) ?ns s1"
    have step: "bfs_step g goal s = s3"
      using ng by (simp add: bfs_step_def q s1_def s3_def)
    have v1: "visited s1 = visited s" by (simp add: s1_def)
    have newN: "set ?new = N" using vis by (auto simp: N_def)
    have dn: "distinct ?new" by (simp add: distinct_get_neighbors)
    have q3: "queue s3 = rest @ ?new"
      by (simp add: s3_def bfs_fold_queue distinct_get_neighbors v1) (simp add: s1_def)
    have g3: "generated s3 = accepted s @ c # rest @ ?new"
      by (simp add: s3_def bfs_fold_generated distinct_get_neighbors v1) (simp add: s1_def gen)
    have a3: "accepted s3 = accepted s @ [c]" by (simp add: s3_def s1_def)
    have v3: "visited s3 = visited s \<union> set ?ns"
      by (simp add: s3_def bfs_fold_visited v1)
    have c3: "cf' x = (if x \<in> N then Some c else came_from s x)" for x
      using vis by (auto simp: cf'_def bfs_fold_came_from v1 N_def) (simp_all add: s1_def)
    have lay': "layered g start goal (insert c ?E) ((?F - {c}) \<union> N) cf' d' (d c)"
    proof (rule layered_expand [OF lay _ ng])
      show "c \<in> ?F" by simp
      show "d c \<le> d y" if "y \<in> ?F" for y using least that .
      show "N = set ?ns - (?E \<union> ?F)" by (simp add: N_def)
      show "cf' x = (if x \<in> N then Some c else came_from s x)" for x by (rule c3)
      show "d' x = (if x \<in> N then d c + 1 else d x)" for x by (simp add: d'_def)
    qed
    have crest: "c \<notin> set rest" using dist by auto
    have F': "(?F - {c}) \<union> N = set (rest @ ?new)"
      using crest newN by auto
    have restN: "x \<notin> N" if "x \<in> set rest" for x
      using that by (auto simp: N_def)
    have mF: "m \<le> d y \<and> d y \<le> m + 1" if "y \<in> ?F" for y
      using lay that unfolding layered_def by blast
    have "sorted (map d' (rest @ ?new))"
    proof -
      have a: "map d' rest = map d rest"
        using restN by (simp add: d'_def)
      have b: "map d' ?new = map (\<lambda>x. d c + 1) ?new"
        using newN by (intro map_cong) (auto simp: d'_def)
      have 1: "sorted (map d' rest)"
        unfolding a using srt by simp
      have 2: "sorted (map d' ?new)"
        unfolding b by (rule sorted_map_const)
      have 3: "d' x \<le> d' y" if "x \<in> set rest" "y \<in> set ?new" for x y
      proof -
        have "d' x = d x" using restN that(1) by (simp add: d'_def)
        moreover have "d' y = d c + 1" using newN that(2) by (simp add: d'_def)
        moreover have "d x \<le> d c + 1" using mF [of x] mF [of c] that(1) by auto
        ultimately show ?thesis by simp
      qed
      show ?thesis
        unfolding map_append sorted_append using 1 2 3 by auto
    qed
    moreover have "layered g start goal (set (accepted s3)) (set (queue s3)) (came_from s3) d' (d c)"
    proof -
      have "set (accepted s3) = insert c ?E" by (simp add: a3)
      moreover have "set (queue s3) = (?F - {c}) \<union> N" by (simp only: q3 F')
      moreover have "came_from s3 = cf'" by (simp add: cf'_def s3_def)
      ultimately show ?thesis using lay' by simp
    qed
    ultimately have ex: "\<exists>d m. layered g start goal (set (accepted s3)) (set (queue s3))
        (came_from s3) d m \<and> sorted (map d (queue s3))"
      using q3 by auto
    have d3: "distinct (generated s3)"
      using dist dn vis by (auto simp: g3)
    have "bfs_inv g start goal s3"
      unfolding bfs_inv_def
    proof (intro conjI)
      show "going s3" using going by (simp add: s3_def going_def s1_def)
      show "generated s3 = accepted s3 @ queue s3" by (simp add: g3 a3 q3)
      show "distinct (generated s3)" by (rule d3)
      show "visited s3 = set (generated s3)"
        using vis by (auto simp: v3 g3)
      show "\<exists>d m. layered g start goal (set (accepted s3)) (set (queue s3)) (came_from s3) d m \<and>
        sorted (map d (queue s3))" by (rule ex)
    qed
    then show ?thesis using d3 by (simp add: step)
  qed
qed


lemma shortest_found_not_going: "shortest_found g start goal s \<Longrightarrow> \<not> going s"
  by (auto simp: shortest_found_def going_def)

lemma shortest_found_result:
  assumes "shortest_found g start goal s"
  shows "\<exists>p. result s = PathFound p \<and> path_between g start goal p \<and>
             (\<forall>q. path_between g start goal q \<longrightarrow> length p \<le> length q)"
proof -
  obtain p where p: "found_path s = Some p" "path_between g start goal p"
    "\<forall>q. path_between g start goal q \<longrightarrow> length p \<le> length q"
    using assms unfolding shortest_found_def by blast
  have "p \<noteq> []" using p(2) by (auto simp: path_between_def valid_path_def)
  then have "result s = PathFound p" using p(1) by (simp add: result_def)
  then show ?thesis using p by blast
qed

lemma bfs_run_cases:
  assumes "free g start"
  shows "((bfs_inv g start goal (run_bfs g start goal) \<and> queue (run_bfs g start goal) = []) \<or>
          shortest_found g start goal (run_bfs g start goal)) \<and>
         distinct (generated (run_bfs g start goal))"
proof -
  let ?I = "\<lambda>s. (bfs_inv g start goal s \<or> shortest_found g start goal s) \<and>
                 distinct (generated s)"
  have "?I (run_bfs g start goal)"
    unfolding run_bfs_def
  proof (rule bfs_loop_invariant)
    have "bfs_inv g start goal (bfs_init start)"
      using assms by (rule bfs_inv_init)
    moreover have "distinct (generated (bfs_init start))"
      by (simp add: bfs_init_def blank_def)
    ultimately show "?I (bfs_init start)" by blast
    show "?I (bfs_step g goal t)" if "?I t" "queue t \<noteq> []" "going t" for t
      using that bfs_step_inv [of g start goal t] shortest_found_not_going by blast
  qed
  moreover have "queue (run_bfs g start goal) = [] \<or> \<not> going (run_bfs g start goal)"
    unfolding run_bfs_def by (rule bfs_loop_done)
  ultimately show ?thesis
    by (auto simp: bfs_inv_def)
qed

lemma bfs_inv_exhausted:
  assumes "bfs_inv g start goal s" and "queue s = []"
  shows "\<not> path_between g start goal q"
proof -
  obtain d m where "layered g start goal (set (accepted s)) {} (came_from s) d m"
    using assms unfolding bfs_inv_def by auto
  then show ?thesis by (rule layered_exhausted)
qed

lemma path_between_free: "path_between g start goal p \<Longrightarrow> free g start"
  by (cases p) (auto simp: path_between_def valid_path_def)

lemma bfs_complete:
  assumes "path_between g start goal q"
  shows "shortest_found g start goal (run_bfs g start goal) \<and>
         distinct (generated (run_bfs g start goal))"
  using bfs_run_cases [OF path_between_free [OF assms], of goal] bfs_inv_exhausted assms
  by blast

text \<open>
  Enqueueing in every run, whether or not the goal can be reached: a coordinate is put on
  the queue only when it is not in \<open>visited\<close>, and it is added to \<open>visited\<close> in the same
  step, so the coordinates generated so far are distinct and all visited.
\<close>

definition enqueued_once :: "run_state \<Rightarrow> bool" where
  "enqueued_once s \<longleftrightarrow> distinct (generated s) \<and> set (generated s) \<subseteq> visited s"

lemma bfs_neighbor_once: "enqueued_once s \<Longrightarrow> enqueued_once (bfs_neighbor c n s)"
  unfolding enqueued_once_def bfs_neighbor_def by auto

lemma bfs_fold_once: "enqueued_once s \<Longrightarrow> enqueued_once (fold (bfs_neighbor c) ns s)"
  by (induction ns arbitrary: s) (simp_all add: bfs_neighbor_once)

lemma finish_once: "enqueued_once (finish c s) \<longleftrightarrow> enqueued_once s"
  by (simp add: enqueued_once_def finish_def split: option.splits)

lemma bfs_step_once:
  assumes "enqueued_once s"
  shows "enqueued_once (bfs_step g goal s)"
proof (cases "queue s")
  case Nil
  then show ?thesis using assms by (simp add: bfs_step_def)
next
  case (Cons current rest)
  define s1 where "s1 = s\<lparr> queue := rest, frontier_cells := frontier_cells s - {current},
    nodes_visited := nodes_visited s + 1, accepted := accepted s @ [current] \<rparr>"
  have 1: "enqueued_once s1"
    using assms by (simp add: s1_def enqueued_once_def)
  have "bfs_step g goal s =
          (if current = goal then finish current s1
           else fold (bfs_neighbor current) (get_neighbors g current) s1)"
    by (simp add: bfs_step_def Cons s1_def)
  then show ?thesis
    using 1 by (simp add: finish_once bfs_fold_once)
qed

lemma bfs_enqueued_once: "enqueued_once (run_bfs g start goal)"
  unfolding run_bfs_def
proof (rule bfs_loop_invariant)
  show "enqueued_once (bfs_init start)"
    by (simp add: enqueued_once_def bfs_init_def blank_def)
next
  fix t
  assume "enqueued_once t"
  then show "enqueued_once (bfs_step g goal t)"
    by (rule bfs_step_once)
qed

text \<open>
  Claim C1. On a well-formed grid, if there is a path of free (in-bounds, non-obstacle),
  4-adjacent cells from the start to the goal, the breadth-first run succeeds, the path it
  reconstructs is such a path, and no path from the start to the goal has fewer cells.
  Moreover, in every run, with or without such a path, no coordinate is placed on the
  queue twice.
\<close>

theorem bfs_shortest_path:
  assumes "wf_grid g"
  shows "(path_between g start goal q \<longrightarrow>
            (\<exists>p. result (run_bfs g start goal) = PathFound p \<and> path_between g start goal p \<and>
                 (\<forall>q'. path_between g start goal q' \<longrightarrow> length p \<le> length q')) \<and>
            abort (run_bfs g start goal) = None) \<and>
         distinct (generated (run_bfs g start goal))"
proof -
  have d: "distinct (generated (run_bfs g start goal))"
    using bfs_enqueued_once [of g start goal] by (simp add: enqueued_once_def)
  have "(\<exists>p. result (run_bfs g start goal) = PathFound p \<and> path_between g start goal p \<and>
             (\<forall>q'. path_between g start goal q' \<longrightarrow> length p \<le> length q')) \<and>
        abort (run_bfs g start goal) = None"
    if q: "path_between g start goal q"
  proof -
    have sf: "shortest_found g start goal (run_bfs g start goal)"
      using bfs_complete [OF q] by simp
    show ?thesis
      using shortest_found_result [OF sf] sf by (simp add: shortest_found_def)
  qed
  then show ?thesis
    using d by blast
qed

theorem bfs_shortest_path_witness:
  "wf_grid demo_grid \<and>
   path_between demo_grid (0, 0) (0, 2) [(0, 0), (1, 0), (1, 1), (1, 2), (0, 2)] \<and>
   (\<exists>p. result (run_bfs demo_grid (0, 0) (0, 2)) = PathFound p \<and>
        path_between demo_grid (0, 0) (0, 2) p \<and> length p \<le> 5) \<and>
   distinct (generated (run_bfs demo_grid (0, 0) (0, 2)))"
proof -
  have w: "wf_grid demo_grid"
    by (simp add: wf_grid_def demo_grid_def)
  have q: "path_between demo_grid (0, 0) (0, 2) [(0, 0), (1, 0), (1, 1), (1, 2), (0, 2)]"
    by (simp add: path_between_def valid_path_def free_def in_bounds_def cell_def adjacent_def
        demo_grid_def)
  show ?thesis
    using bfs_shortest_path [OF w, of "(0, 0)" "(0, 2)"
        "[(0, 0), (1, 0), (1, 1), (1, 2), (0, 2)]"] w q
    by fastforce
qed

section \<open>Breadth-first against depth-first search\<close>

lemma found_result:
  assumes "found g start goal s"
  shows "\<exists>p. result s = PathFound p \<and> path_between g start goal p"
proof -
  obtain p where p: "found_path s = Some p" "path_between g start goal p"
    using assms unfolding found_def by blast
  have "p \<noteq> []" using p(2) by (auto simp: path_between_def valid_path_def)
  then have "result s = PathFound p" using p(1) by (simp add: result_def)
  then show ?thesis using p by blast
qed

text \<open>
  Claim C8. On a well-formed grid, if a path from the start to the goal exists, the
  breadth-first and the depth-first run both succeed, each returns a path of free,
  4-adjacent cells from the start to the goal, and the path of the breadth-first run has
  at most as many cells as the path of the depth-first run.
\<close>

theorem bfs_not_longer_than_dfs:
  assumes "wf_grid g" and "path_between g start goal q"
  shows "\<exists>pb pd. result (run_bfs g start goal) = PathFound pb \<and>
                 result (run_dfs g start goal) = PathFound pd \<and>
                 path_between g start goal pb \<and> path_between g start goal pd \<and>
                 length pb \<le> length pd"
proof -
  obtain pd where pd: "result (run_dfs g start goal) = PathFound pd"
    "path_between g start goal pd"
    using found_result [OF dfs_complete [OF assms(2)]] by blast
  obtain pb where pb: "result (run_bfs g start goal) = PathFound pb"
    "path_between g start goal pb"
    "\<forall>q'. path_between g start goal q' \<longrightarrow> length pb \<le> length q'"
    using shortest_found_result [of g start goal "run_bfs g start goal"]
      bfs_complete [OF assms(2)] by blast
  show ?thesis
    using pd pb by blast
qed

theorem bfs_not_longer_than_dfs_witness:
  "\<exists>pb pd. result (run_bfs demo_grid (0, 0) (0, 2)) = PathFound pb \<and>
           result (run_dfs demo_grid (0, 0) (0, 2)) = PathFound pd \<and>
           path_between demo_grid (0, 0) (0, 2) pb \<and>
           path_between demo_grid (0, 0) (0, 2) pd \<and>
           length pb \<le> length pd"
proof -
  have w: "wf_grid demo_grid"
    by (simp add: wf_grid_def demo_grid_def)
  have q: "path_between demo_grid (0, 0) (0, 2) [(0, 0), (1, 0), (1, 1), (1, 2), (0, 2)]"
    by (simp add: path_between_def valid_path_def free_def in_bounds_def cell_def adjacent_def
        demo_grid_def)
  show ?thesis
    using bfs_not_longer_than_dfs [OF w q] .
qed

section \<open>Uniform-cost search returns a shortest path\<close>

text \<open>
  What the \<open>for\<close> loop of the uniform-cost run does when no recorded cost can be
  improved (every step costs 1, so this is the case in every run): it pushes the
  neighbours that are neither visited nor known, with the cost of \<open>current\<close> plus one.
\<close>

lemma ucs_fold_closed:
  assumes "abort s = None" and "g_score s c = Some gc" and "c \<notin> set ns" and "distinct ns"
    and "\<And>n k. n \<in> set ns \<Longrightarrow> n \<notin> visited_cells s \<Longrightarrow> g_score s n = Some k \<Longrightarrow> k \<le> gc + 1"
  shows "open_set (fold (ucs_neighbor c) ns s) =
           open_set s @ map (\<lambda>n. (gc + 1, n))
             (filter (\<lambda>n. n \<notin> visited_cells s \<and> g_score s n = None) ns) \<and>
         generated (fold (ucs_neighbor c) ns s) =
           generated s @ filter (\<lambda>n. n \<notin> visited_cells s \<and> g_score s n = None) ns \<and>
         (\<forall>x. g_score (fold (ucs_neighbor c) ns s) x =
            (if x \<in> set ns \<and> x \<notin> visited_cells s \<and> g_score s x = None
             then Some (gc + 1) else g_score s x)) \<and>
         (\<forall>x. came_from (fold (ucs_neighbor c) ns s) x =
            (if x \<in> set ns \<and> x \<notin> visited_cells s \<and> g_score s x = None
             then Some c else came_from s x)) \<and>
         abort (fold (ucs_neighbor c) ns s) = None \<and>
         accepted (fold (ucs_neighbor c) ns s) = accepted s"
  using assms
proof (induction ns arbitrary: s)
  case Nil
  then show ?case by simp
next
  case (Cons n ns)
  define s' where "s' = ucs_neighbor c n s"
  have nc: "n \<noteq> c" and nn: "n \<notin> set ns" and cn: "c \<notin> set ns" and dn: "distinct ns"
    using Cons.prems by auto
  have push: "s' = s\<lparr> came_from := (came_from s)(n \<mapsto> c),
                    g_score := (g_score s)(n \<mapsto> gc + 1),
                    open_set := open_set s @ [(gc + 1, n)],
                    frontier_cells := insert n (frontier_cells s),
                    nodes_explored := nodes_explored s + 1,
                    generated := generated s @ [n] \<rparr>"
    if "n \<notin> visited_cells s" "g_score s n = None"
    using that Cons.prems(1,2) by (simp add: s'_def ucs_neighbor_def Let_def heappush_def)
  have keep: "s' = s" if h: "\<not> (n \<notin> visited_cells s \<and> g_score s n = None)"
  proof (cases "n \<in> visited_cells s")
    case True
    then show ?thesis using Cons.prems(1) by (simp add: s'_def ucs_neighbor_def)
  next
    case False
    then obtain k where k: "g_score s n = Some k" using h by auto
    then have "k \<le> gc + 1" using Cons.prems(5) [of n k] False by simp
    then show ?thesis
      using Cons.prems(1,2) False k by (simp add: s'_def ucs_neighbor_def Let_def)
  qed
  have v: "visited_cells s' = visited_cells s"
    by (cases "n \<notin> visited_cells s \<and> g_score s n = None") (simp_all add: push keep)
  have gs: "g_score s' x = g_score s x" if "x \<noteq> n" for x
    using that by (cases "n \<notin> visited_cells s \<and> g_score s n = None") (simp_all add: push keep)
  have flt: "filter (\<lambda>x. x \<notin> visited_cells s' \<and> g_score s' x = None) ns =
             filter (\<lambda>x. x \<notin> visited_cells s \<and> g_score s x = None) ns"
  proof (intro filter_cong refl)
    fix x assume "x \<in> set ns"
    then have "x \<noteq> n" using nn by auto
    then show "(x \<notin> visited_cells s' \<and> g_score s' x = None) =
               (x \<notin> visited_cells s \<and> g_score s x = None)"
      by (simp add: v gs)
  qed
  have IH: "open_set (fold (ucs_neighbor c) ns s') =
           open_set s' @ map (\<lambda>n. (gc + 1, n))
             (filter (\<lambda>n. n \<notin> visited_cells s' \<and> g_score s' n = None) ns) \<and>
         generated (fold (ucs_neighbor c) ns s') =
           generated s' @ filter (\<lambda>n. n \<notin> visited_cells s' \<and> g_score s' n = None) ns \<and>
         (\<forall>x. g_score (fold (ucs_neighbor c) ns s') x =
            (if x \<in> set ns \<and> x \<notin> visited_cells s' \<and> g_score s' x = None
             then Some (gc + 1) else g_score s' x)) \<and>
         (\<forall>x. came_from (fold (ucs_neighbor c) ns s') x =
            (if x \<in> set ns \<and> x \<notin> visited_cells s' \<and> g_score s' x = None
             then Some c else came_from s' x)) \<and>
         abort (fold (ucs_neighbor c) ns s') = None \<and>
         accepted (fold (ucs_neighbor c) ns s') = accepted s'"
  proof (rule Cons.IH)
    show "abort s' = None"
      using Cons.prems(1)
      by (cases "n \<notin> visited_cells s \<and> g_score s n = None") (simp_all add: push keep)
    show "g_score s' c = Some gc" using gs [of c] nc Cons.prems(2) by simp
    show "c \<notin> set ns" by (rule cn)
    show "distinct ns" by (rule dn)
    show "k \<le> gc + 1" if "x \<in> set ns" "x \<notin> visited_cells s'" "g_score s' x = Some k" for x k
    proof -
      have "x \<noteq> n" using that(1) nn by auto
      then show ?thesis using Cons.prems(5) [of x k] that by (simp add: v gs)
    qed
  qed
  show ?case
  proof (cases "n \<notin> visited_cells s \<and> g_score s n = None")
    case True
    then have p: "s' = s\<lparr> came_from := (came_from s)(n \<mapsto> c),
                    g_score := (g_score s)(n \<mapsto> gc + 1),
                    open_set := open_set s @ [(gc + 1, n)],
                    frontier_cells := insert n (frontier_cells s),
                    nodes_explored := nodes_explored s + 1,
                    generated := generated s @ [n] \<rparr>"
      using push by simp
    have 1: "g_score s' x = (if x = n then Some (gc + 1) else g_score s x)" for x
      by (simp add: p)
    have 2: "came_from s' x = (if x = n then Some c else came_from s x)" for x
      by (simp add: p)
    have 3: "open_set s' = open_set s @ [(gc + 1, n)]" "generated s' = generated s @ [n]"
      "accepted s' = accepted s"
      by (simp_all add: p)
    show ?thesis
      using IH True nn unfolding flt s'_def [symmetric] fold_simps
      by (auto simp: 1 2 3 v s'_def [symmetric])
  next
    case False
    then have k: "s' = s" using keep by simp
    show ?thesis
      using IH False nn unfolding flt s'_def [symmetric] fold_simps
      by (auto simp: k s'_def [symmetric])
  qed
qed


text \<open>
  The invariant of the uniform-cost loop while it is going: the open list holds each
  coordinate at most once, with its recorded cost as priority; \<open>g_score\<close> knows exactly
  the visited coordinates and those in the open list; and the visited set and the open
  list form a layered search whose depth is the recorded cost.
\<close>

definition ucs_inv :: "'a picker_scheme \<Rightarrow> pos \<Rightarrow> pos \<Rightarrow> run_state \<Rightarrow> bool" where
  "ucs_inv g start goal s \<longleftrightarrow>
     going s \<and> distinct (map snd (open_set s)) \<and>
     dom (g_score s) = visited_cells s \<union> snd ` set (open_set s) \<and>
     (\<forall>e \<in> set (open_set s). g_score s (snd e) = Some (fst e)) \<and>
     (\<exists>m. layered g start goal (visited_cells s) (snd ` set (open_set s)) (came_from s)
            (\<lambda>x. the (g_score s x)) m)"

lemma ucs_inv_init:
  assumes "free g start"
  shows "ucs_inv g start goal (ucs_init start)"
proof -
  have "layered g start goal {} {start} Map.empty (\<lambda>x. the ([start \<mapsto> 0 :: int] x)) 0"
    unfolding layered_def using assms
    by (auto intro!: exI [of _ "[start]"] chain.root simp: path_between_single)
  then show ?thesis
    by (auto simp: ucs_inv_def ucs_init_def blank_def going_def heappush_def)
qed

lemma distinct_map_remove1: "distinct (map f xs) \<Longrightarrow> distinct (map f (remove1 x xs))"
proof (induction xs)
  case Nil
  then show ?case by simp
next
  case (Cons a xs)
  have "f a \<notin> f ` set (remove1 x xs)"
    using Cons.prems set_remove1_subset [of x xs] by auto
  then show ?case using Cons by auto
qed

lemma fst_le_of_le: "(a :: int \<times> pos) \<le> b \<Longrightarrow> fst a \<le> fst b"
  by (cases a; cases b) (auto simp: less_eq_prod_def)

lemma ucs_step_inv:
  assumes inv: "ucs_inv g start goal s" and ne: "open_set s \<noteq> []"
  shows "ucs_inv g start goal (ucs_step g goal s) \<or>
         shortest_found g start goal (ucs_step g goal s)"
proof -
  let ?item = "fst (heappop (open_set s))"
  let ?c = "snd ?item"
  let ?k = "fst ?item"
  let ?rest = "snd (heappop (open_set s))"
  let ?E = "visited_cells s" and ?F = "snd ` set (open_set s)"
  let ?d = "\<lambda>x. the (g_score s x)"
  have going: "going s" and dist: "distinct (map snd (open_set s))"
    and dom: "dom (g_score s) = ?E \<union> ?F"
    using inv by (auto simp: ucs_inv_def)
  have ent: "g_score s (snd e) = Some (fst e)" if "e \<in> set (open_set s)" for e
    using inv that unfolding ucs_inv_def by blast
  obtain m where lay: "layered g start goal ?E ?F (came_from s) ?d m"
    using inv unfolding ucs_inv_def by blast
  have item: "?item = heap_min (open_set s)" "?rest = remove1 ?item (open_set s)"
    by (simp_all add: heappop_def)
  have iin: "?item \<in> set (open_set s)"
    using heap_min_in [OF ne] by (simp add: item)
  have cF: "?c \<in> ?F" using iin by (rule imageI)
  have gc: "g_score s ?c = Some ?k" using ent [OF iin] .
  have least: "?d ?c \<le> ?d y" if yF: "y \<in> ?F" for y
  proof -
    obtain e where e: "e \<in> set (open_set s)" "y = snd e" using yF by auto
    have "?item \<le> e" using heap_min_le [OF e(1)] by (simp add: item)
    then have "?k \<le> fst e" by (rule fst_le_of_le)
    then show ?thesis using gc ent [OF e(1)] e(2) by simp
  qed
  have cE: "?c \<notin> ?E" using lay cF unfolding layered_def by blast
  have drest: "distinct (map snd ?rest)"
    using dist by (simp add: item(2) distinct_map_remove1)
  have Frest: "snd ` set ?rest = ?F - {?c}"
  proof -
    have "distinct (open_set s)" using dist by (simp add: distinct_map)
    then have "set ?rest = set (open_set s) - {?item}"
      by (simp add: item(2))
    have other: "snd e \<noteq> ?c" if "e \<in> set (open_set s)" "e \<noteq> ?item" for e
      using dist that iin by (meson distinct_map inj_onD)
    show ?thesis
    proof (intro set_eqI iffI)
      fix x assume "x \<in> snd ` set ?rest"
      then obtain e where e: "e \<in> set ?rest" "x = snd e" by auto
      then have "e \<in> set (open_set s)" "e \<noteq> ?item"
        using \<open>set ?rest = set (open_set s) - {?item}\<close> by auto
      then show "x \<in> ?F - {?c}" using other e(2) by auto
    next
      fix x assume x: "x \<in> ?F - {?c}"
      then obtain e where e: "e \<in> set (open_set s)" "x = snd e" by auto
      then have "e \<noteq> ?item" using x by auto
      then have "e \<in> set ?rest"
        using e(1) \<open>set ?rest = set (open_set s) - {?item}\<close> by auto
      then show "x \<in> snd ` set ?rest" using e(2) by auto
    qed
  qed
  define s2 where "s2 = s\<lparr> open_set := ?rest, frontier_cells := frontier_cells s - {?c},
    visited_cells := insert ?c ?E, nodes_visited := nodes_visited s + 1,
    accepted := accepted s @ [?c] \<rparr>"
  show ?thesis
  proof (cases "?c = goal")
    case True
    obtain p where p: "chain (came_from s) goal p" "path_between g start goal p"
      "int (length p) = ?d goal + 1"
      using lay cF True unfolding layered_def by (metis UnCI)
    have "ucs_step g goal s = finish ?c s2"
      using ne cE True by (simp add: ucs_step_def Let_def s2_def)
    also have "\<dots> = s2\<lparr>found_path := Some p\<rparr>"
      using True by (intro finish_chain) (simp add: s2_def p(1))
    finally have step: "ucs_step g goal s = s2\<lparr>found_path := Some p\<rparr>" .
    have "length p \<le> length q'" if "path_between g start goal q'" for q'
    proof -
      have "?d goal + 1 \<le> int (length q')"
        using layered_goal_shortest [OF lay _ _ that] least cF True by auto
      then show ?thesis using p(3) by simp
    qed
    then have "shortest_found g start goal (ucs_step g goal s)"
      using p(2) going by (auto simp: shortest_found_def step s2_def going_def)
    then show ?thesis ..
  next
    case ng: False
    let ?ns = "get_neighbors g ?c"
    let ?new = "filter (\<lambda>n. n \<notin> visited_cells s2 \<and> g_score s2 n = None) ?ns"
    define N where "N = set ?ns - (?E \<union> ?F)"
    define s3 where "s3 = fold (ucs_neighbor ?c) ?ns s2"
    have step: "ucs_step g goal s = s3"
      using ne cE ng by (simp add: ucs_step_def Let_def s2_def s3_def)
    have mF: "m \<le> ?d y \<and> ?d y \<le> m + 1" if "y \<in> ?F" for y
      using lay that unfolding layered_def by blast
    have cns: "?c \<notin> set ?ns"
      by (auto simp: get_neighbors_iff adjacent_def)
    have closed: "open_set s3 = open_set s2 @ map (\<lambda>n. (?k + 1, n)) ?new \<and>
         generated s3 = generated s2 @ ?new \<and>
         (\<forall>x. g_score s3 x =
            (if x \<in> set ?ns \<and> x \<notin> visited_cells s2 \<and> g_score s2 x = None
             then Some (?k + 1) else g_score s2 x)) \<and>
         (\<forall>x. came_from s3 x =
            (if x \<in> set ?ns \<and> x \<notin> visited_cells s2 \<and> g_score s2 x = None
             then Some ?c else came_from s2 x)) \<and>
         abort s3 = None \<and> accepted s3 = accepted s2"
      unfolding s3_def
    proof (rule ucs_fold_closed)
      show "abort s2 = None" using going by (simp add: s2_def going_def)
      show "g_score s2 ?c = Some ?k" using gc by (simp add: s2_def)
      show "?c \<notin> set ?ns" by (rule cns)
      show "distinct ?ns" by (rule distinct_get_neighbors)
      show "k \<le> ?k + 1" if "n \<in> set ?ns" "n \<notin> visited_cells s2" "g_score s2 n = Some k" for n k
      proof -
        have "n \<in> dom (g_score s)" "n \<notin> ?E" using that by (auto simp: s2_def)
        then have "n \<in> ?F" using dom by auto
        then have "?d n \<le> m + 1" using mF by blast
        moreover have "m \<le> ?d ?c" using mF [OF cF] by simp
        ultimately show ?thesis using that(3) gc by (simp add: s2_def)
      qed
    qed
    have isnew: "(x \<in> set ?ns \<and> x \<notin> visited_cells s2 \<and> g_score s2 x = None) \<longleftrightarrow> x \<in> N" for x
    proof -
      have "g_score s x = None \<longleftrightarrow> x \<notin> ?E \<union> ?F"
        using dom by (metis domIff)
      moreover have "x \<noteq> ?c" if "x \<notin> ?E \<union> ?F"
        using that cF by blast
      ultimately show ?thesis
        unfolding N_def by (simp add: s2_def) blast
    qed
    have newN: "set ?new = N"
      using isnew by auto
    have s2f: "g_score s2 = g_score s" "came_from s2 = came_from s" "open_set s2 = ?rest"
      by (simp_all add: s2_def)
    have o3: "open_set s3 = ?rest @ map (\<lambda>n. (?k + 1, n)) ?new"
      using closed by (simp only: s2f(3))
    have g3: "g_score s3 x = (if x \<in> N then Some (?k + 1) else g_score s x)" for x
    proof -
      have "g_score s3 x =
            (if x \<in> set ?ns \<and> x \<notin> visited_cells s2 \<and> g_score s2 x = None
             then Some (?k + 1) else g_score s2 x)"
        using closed by blast
      then have "g_score s3 x = (if x \<in> N then Some (?k + 1) else g_score s2 x)"
        by (simp only: isnew)
      then show ?thesis by (simp only: s2f)
    qed
    have c3: "came_from s3 x = (if x \<in> N then Some ?c else came_from s x)" for x
    proof -
      have "came_from s3 x =
            (if x \<in> set ?ns \<and> x \<notin> visited_cells s2 \<and> g_score s2 x = None
             then Some ?c else came_from s2 x)"
        using closed by blast
      then have "came_from s3 x = (if x \<in> N then Some ?c else came_from s2 x)"
        by (simp only: isnew)
      then show ?thesis by (simp only: s2f)
    qed
    have v3: "visited_cells s3 = insert ?c ?E" by (simp add: s3_def s2_def)
    have F3: "snd ` set (open_set s3) = (?F - {?c}) \<union> N"
      using Frest newN by (auto simp: o3 image_Un image_image)
    have lay': "layered g start goal (insert ?c ?E) ((?F - {?c}) \<union> N) (came_from s3)
                  (\<lambda>x. the (g_score s3 x)) (?d ?c)"
    proof (rule layered_expand [OF lay cF ng])
      show "?d ?c \<le> ?d y" if "y \<in> ?F" for y using least that .
      show "N = set ?ns - (?E \<union> ?F)" by (simp add: N_def)
      show "came_from s3 x = (if x \<in> N then Some ?c else came_from s x)" for x by (rule c3)
      show "the (g_score s3 x) = (if x \<in> N then ?d ?c + 1 else ?d x)" for x
        using gc by (simp add: g3)
    qed
    have "ucs_inv g start goal s3"
      unfolding ucs_inv_def
    proof (intro conjI ballI)
      show "going s3" using going closed by (simp add: s3_def going_def s2_def)
      show "distinct (map snd (open_set s3))"
      proof -
        have "map snd (open_set s3) = map snd ?rest @ ?new"
          by (simp add: o3 comp_def)
        moreover have "distinct ?new" by (simp add: distinct_get_neighbors)
        moreover have "set (map snd ?rest) \<inter> set ?new = {}"
          using Frest newN by (auto simp: N_def)
        ultimately show ?thesis using drest by simp
      qed
      show "dom (g_score s3) = visited_cells s3 \<union> snd ` set (open_set s3)"
      proof -
        have "dom (g_score s3) = dom (g_score s) \<union> N"
          by (auto simp: g3 dom_def)
        moreover have "insert ?c ?E \<union> ((?F - {?c}) \<union> N) = (?E \<union> ?F) \<union> N"
          using cF by blast
        ultimately show ?thesis by (simp only: v3 F3 dom)
      qed
      show "g_score s3 (snd e) = Some (fst e)" if eo: "e \<in> set (open_set s3)" for e
      proof -
        consider "e \<in> set ?rest" | "e \<in> set (map (\<lambda>n. (?k + 1, n)) ?new)"
          using eo by (auto simp: o3)
        then show ?thesis
        proof cases
          case 1
          then have "e \<in> set (open_set s)" using set_heappop by blast
          moreover from this have "snd e \<notin> N" by (auto simp: N_def)
          ultimately show ?thesis using ent by (simp add: g3)
        next
          case 2
          then show ?thesis using newN by (auto simp: g3)
        qed
      qed
      show "\<exists>m. layered g start goal (visited_cells s3) (snd ` set (open_set s3)) (came_from s3)
            (\<lambda>x. the (g_score s3 x)) m"
        using lay' by (auto simp: v3 F3)
    qed
    then show ?thesis by (simp add: step)
  qed
qed

lemma ucs_run_cases:
  assumes "free g start"
  shows "(ucs_inv g start goal (run_ucs g start goal) \<and> open_set (run_ucs g start goal) = []) \<or>
         shortest_found g start goal (run_ucs g start goal)"
proof -
  let ?I = "\<lambda>s. ucs_inv g start goal s \<or> shortest_found g start goal s"
  have "?I (run_ucs g start goal)"
    unfolding run_ucs_def
  proof (rule ucs_loop_invariant)
    show "?I (ucs_init start)" using ucs_inv_init [OF assms] by blast
    show "?I (ucs_step g goal t)" if "?I t" "open_set t \<noteq> []" "going t" for t
      using that ucs_step_inv [of g start goal t] shortest_found_not_going by blast
  qed
  moreover have "open_set (run_ucs g start goal) = [] \<or> \<not> going (run_ucs g start goal)"
    unfolding run_ucs_def by (rule ucs_loop_done)
  ultimately show ?thesis
    by (auto simp: ucs_inv_def)
qed

lemma ucs_inv_exhausted:
  assumes "ucs_inv g start goal s" and "open_set s = []"
  shows "\<not> path_between g start goal q"
proof -
  obtain m where "layered g start goal (visited_cells s) {} (came_from s)
      (\<lambda>x. the (g_score s x)) m"
    using assms unfolding ucs_inv_def by auto
  then show ?thesis by (rule layered_exhausted)
qed

lemma ucs_complete:
  assumes "path_between g start goal q"
  shows "shortest_found g start goal (run_ucs g start goal)"
  using ucs_run_cases [OF path_between_free [OF assms], of goal] ucs_inv_exhausted assms
  by blast

section \<open>A* search ends without an exception\<close>

text \<open>
  The invariant of the A* loop that keeps \<open>reconstruct_path\<close> and the read of
  \<open>g_score[current]\<close> safe: every closed coordinate has a predecessor chain inside the
  closed set, and every coordinate in the open list has a recorded cost and is closed, or
  has no predecessor, or has a closed predecessor.
\<close>

definition astar_safe :: "pos set \<Rightarrow> run_state \<Rightarrow> bool" where
  "astar_safe C s \<longleftrightarrow>
     going s \<and> closed_set s = C \<and>
     (\<forall>x \<in> C. \<exists>p. chain (came_from s) x p \<and> set p \<subseteq> C) \<and>
     (\<forall>e \<in> set (open_set s). g_score s (snd e) \<noteq> None \<and>
        (snd e \<in> C \<or> came_from s (snd e) = None \<or>
         (\<exists>y \<in> C. came_from s (snd e) = Some y)))"

definition astar_inv :: "run_state \<Rightarrow> bool" where
  "astar_inv s \<longleftrightarrow> astar_safe (closed_set s) s"

definition ended_found :: "run_state \<Rightarrow> bool" where
  "ended_found s \<longleftrightarrow> abort s = None \<and> found_path s \<noteq> None"

lemma astar_neighbor_safe:
  assumes safe: "astar_safe C s" and c: "c \<in> C" "g_score s c \<noteq> None"
  shows "astar_safe C (astar_neighbor goal c n s) \<and> g_score (astar_neighbor goal c n s) c \<noteq> None"
proof -
  let ?s' = "astar_neighbor goal c n s"
  obtain gc where gc: "g_score s c = Some gc" using c(2) by auto
  have going: "going s" and cl: "closed_set s = C"
    using safe by (simp_all add: astar_safe_def)
  have ab: "abort s = None" using going by (simp add: going_def)
  have tree: "\<exists>p. chain (came_from s) x p \<and> set p \<subseteq> C" if "x \<in> C" for x
    using safe that unfolding astar_safe_def by blast
  have opn: "g_score s (snd e) \<noteq> None \<and>
        (snd e \<in> C \<or> came_from s (snd e) = None \<or>
         (\<exists>y \<in> C. came_from s (snd e) = Some y))"
    if "e \<in> set (open_set s)" for e
    using safe that unfolding astar_safe_def by blast
  show ?thesis
  proof (cases "n \<notin> C \<and> (case g_score s n of None \<Rightarrow> True | Some gn \<Rightarrow> gc + 1 < gn)")
    case False
    then have "?s' = s"
      using ab cl gc by (auto simp: astar_neighbor_def Let_def split: option.splits)
    then show ?thesis using safe c(2) by simp
  next
    case True
    define s1 where "s1 = s\<lparr> came_from := (came_from s)(n \<mapsto> c),
                            g_score := (g_score s)(n \<mapsto> gc + 1),
                            f_score := (f_score s)(n \<mapsto> gc + 1 + heuristic n goal) \<rparr>"
    define s2 where "s2 = s1\<lparr> open_set := open_set s1 @ [(gc + 1 + heuristic n goal, n)],
                          frontier_cells := insert n (frontier_cells s1),
                          nodes_explored := nodes_explored s1 + 1,
                          generated := generated s1 @ [n] \<rparr>"
    have s': "?s' = (if n \<notin> set (map snd (open_set s)) then s2 else s1)"
      using True ab cl gc
      by (auto simp: astar_neighbor_def Let_def s1_def s2_def heappush_def split: option.splits)
    have nC: "n \<notin> C" using True by simp
    have cf: "came_from ?s' x = (if x = n then Some c else came_from s x)" for x
      by (simp add: s' s1_def s2_def)
    have gs: "g_score ?s' x = (if x = n then Some (gc + 1) else g_score s x)" for x
      by (simp add: s' s1_def s2_def)
    have os: "e \<in> set (open_set s) \<or> snd e = n" if "e \<in> set (open_set ?s')" for e
      using that by (auto simp: s' s1_def s2_def split: if_splits)
    have "astar_safe C ?s'"
      unfolding astar_safe_def
    proof (intro conjI ballI)
      show "going ?s'" using going by (simp add: s' s1_def s2_def going_def)
      show "closed_set ?s' = C" using cl by (simp add: s' s1_def s2_def)
      show "\<exists>p. chain (came_from ?s') x p \<and> set p \<subseteq> C" if xC: "x \<in> C" for x
      proof -
        obtain p where p: "chain (came_from s) x p" "set p \<subseteq> C" using tree [OF xC] by blast
        have "chain (came_from ?s') x p"
          using p(1) by (rule chain_agree) (use p(2) nC cf in auto)
        then show ?thesis using p(2) by blast
      qed
      show "g_score ?s' (snd e) \<noteq> None"
        if "e \<in> set (open_set ?s')" for e
        using os [OF that] opn [of e] by (auto simp: gs)
      show "snd e \<in> C \<or> came_from ?s' (snd e) = None \<or>
            (\<exists>y \<in> C. came_from ?s' (snd e) = Some y)"
        if "e \<in> set (open_set ?s')" for e
        using os [OF that] opn [of e] c(1) by (auto simp: cf)
    qed
    then show ?thesis using gc by (simp add: gs)
  qed
qed

lemma astar_fold_safe:
  assumes "astar_safe C s" and "c \<in> C" and "g_score s c \<noteq> None"
  shows "astar_safe C (fold (astar_neighbor goal c) ns s)"
  using assms
proof (induction ns arbitrary: s)
  case Nil
  then show ?case by simp
next
  case (Cons n ns)
  then show ?case
    using astar_neighbor_safe [of C s c goal n] by simp
qed

lemma astar_inv_init: "astar_inv (astar_init start goal)"
  by (simp add: astar_inv_def astar_safe_def astar_init_def blank_def going_def heappush_def)

lemma astar_step_inv:
  assumes inv: "astar_inv s" and ne: "open_set s \<noteq> []"
  shows "astar_inv (astar_step g goal s) \<or> ended_found (astar_step g goal s)"
proof -
  let ?item = "fst (heappop (open_set s))"
  let ?c = "snd ?item"
  let ?rest = "snd (heappop (open_set s))"
  let ?C = "closed_set s"
  have safe: "astar_safe ?C s" using inv by (simp add: astar_inv_def)
  have going: "going s" using safe by (simp add: astar_safe_def)
  have tree: "\<exists>p. chain (came_from s) x p \<and> set p \<subseteq> ?C" if "x \<in> ?C" for x
    using safe that unfolding astar_safe_def by blast
  have opn: "g_score s (snd e) \<noteq> None \<and>
        (snd e \<in> ?C \<or> came_from s (snd e) = None \<or>
         (\<exists>y \<in> ?C. came_from s (snd e) = Some y))"
    if "e \<in> set (open_set s)" for e
    using safe that unfolding astar_safe_def by blast
  have cin: "?item \<in> set (open_set s)"
    using heap_min_in [OF ne] by (simp add: heappop_def)
  obtain pc where pc: "chain (came_from s) ?c pc" "set pc \<subseteq> insert ?c ?C"
  proof -
    consider "?c \<in> ?C" | "came_from s ?c = None" | y where "y \<in> ?C" "came_from s ?c = Some y"
      using opn [OF cin] by auto
    then show ?thesis
    proof cases
      case 1
      then show ?thesis using tree [of ?c] that by blast
    next
      case 2
      then have "chain (came_from s) ?c [?c]" by (rule chain.root)
      then show ?thesis using that by simp
    next
      case 3
      obtain p where p: "chain (came_from s) y p" "set p \<subseteq> ?C" using tree [OF 3(1)] by blast
      have "chain (came_from s) ?c (p @ [?c])" using 3(2) p(1) by (rule chain.link)
      moreover have "set (p @ [?c]) \<subseteq> insert ?c ?C" using p(2) by auto
      ultimately show ?thesis using that [of "p @ [?c]"] by blast
    qed
  qed
  define s1 where "s1 = s\<lparr> open_set := ?rest, frontier_cells := frontier_cells s - {?c},
    accepted := accepted s @ [?c] \<rparr>"
  show ?thesis
  proof (cases "?c = goal")
    case True
    have "astar_step g goal s = finish ?c s1"
      using ne True by (simp add: astar_step_def Let_def s1_def)
    also have "\<dots> = s1\<lparr>found_path := Some pc\<rparr>"
      by (rule finish_chain) (simp add: s1_def pc(1))
    finally have "ended_found (astar_step g goal s)"
      using going by (simp add: ended_found_def s1_def going_def)
    then show ?thesis ..
  next
    case False
    define s2 where "s2 = s1\<lparr> closed_set := insert ?c (closed_set s1),
      visited_cells := insert ?c (visited_cells s1), nodes_visited := nodes_visited s1 + 1 \<rparr>"
    have step: "astar_step g goal s = fold (astar_neighbor goal ?c) (get_neighbors g ?c) s2"
      using ne False by (simp add: astar_step_def Let_def s1_def s2_def)
    have rest: "set (open_set s2) \<subseteq> set (open_set s)"
      using set_heappop [of "open_set s"] by (simp add: s2_def s1_def)
    have "astar_safe (insert ?c ?C) s2"
      unfolding astar_safe_def
    proof (intro conjI ballI)
      show "going s2" using going by (simp add: s2_def s1_def going_def)
      show "closed_set s2 = insert ?c ?C" by (simp add: s2_def s1_def)
      show "\<exists>p. chain (came_from s2) x p \<and> set p \<subseteq> insert ?c ?C" if "x \<in> insert ?c ?C" for x
      proof (cases "x = ?c")
        case True
        then show ?thesis using pc by (auto simp: s2_def s1_def)
      next
        case False
        then show ?thesis using tree [of x] that by (auto simp: s2_def s1_def)
      qed
      show "g_score s2 (snd e) \<noteq> None" if "e \<in> set (open_set s2)" for e
      proof -
        have "e \<in> set (open_set s)" using that rest by blast
        then show ?thesis using opn [of e] by (simp add: s2_def s1_def)
      qed
      show "snd e \<in> insert ?c ?C \<or> came_from s2 (snd e) = None \<or>
            (\<exists>y \<in> insert ?c ?C. came_from s2 (snd e) = Some y)"
        if "e \<in> set (open_set s2)" for e
      proof -
        have "e \<in> set (open_set s)" using that rest by blast
        then show ?thesis using opn [of e] by (auto simp: s2_def s1_def)
      qed
    qed
    moreover have "g_score s2 ?c \<noteq> None"
      using opn [OF cin] by (simp add: s2_def s1_def)
    ultimately have "astar_safe (insert ?c ?C) (astar_step g goal s)"
      unfolding step by (intro astar_fold_safe) simp_all
    then have "astar_inv (astar_step g goal s)"
      by (simp add: astar_inv_def astar_safe_def)
    then show ?thesis ..
  qed
qed

lemma astar_run_cases:
  "(astar_inv (run_astar g start goal) \<and> open_set (run_astar g start goal) = []) \<or>
   ended_found (run_astar g start goal)"
proof -
  let ?I = "\<lambda>s. astar_inv s \<or> ended_found s"
  have "?I (run_astar g start goal)"
    unfolding run_astar_def
  proof (rule astar_loop_invariant)
    show "?I (astar_init start goal)" using astar_inv_init by blast
    show "?I (astar_step g goal t)" if "?I t" "open_set t \<noteq> []" "going t" for t
      using that astar_step_inv [of t g goal] by (auto simp: ended_found_def going_def)
  qed
  moreover have "open_set (run_astar g start goal) = [] \<or> \<not> going (run_astar g start goal)"
    unfolding run_astar_def by (rule astar_loop_done)
  ultimately show ?thesis
    by (auto simp: astar_inv_def astar_safe_def)
qed

section \<open>Every run terminates\<close>

text \<open>
  \<open>ended s exhausted\<close>: the loop was left without an exception and without a hanging
  \<open>reconstruct_path\<close>, at the \<open>break\<close> with a path found or with the frontier exhausted.
\<close>

definition ended :: "run_state \<Rightarrow> bool \<Rightarrow> bool" where
  "ended s exhausted \<longleftrightarrow> abort s = None \<and> ((\<exists>p. found_path s = Some p) \<or> exhausted)"

lemma bfs_ended:
  assumes "free g start"
  shows "ended (run_bfs g start goal) (queue (run_bfs g start goal) = [])"
  using bfs_run_cases [OF assms, of goal]
  by (auto simp: ended_def bfs_inv_def going_def shortest_found_def)

lemma dfs_ended:
  assumes "free g start"
  shows "ended (run_dfs g start goal) (stack (run_dfs g start goal) = [])"
  using dfs_run_cases [OF assms, of goal]
  by (auto simp: ended_def dfs_inv_def going_def found_def)

lemma ucs_ended:
  assumes "free g start"
  shows "ended (run_ucs g start goal) (open_set (run_ucs g start goal) = [])"
  using ucs_run_cases [OF assms, of goal]
  by (auto simp: ended_def ucs_inv_def going_def shortest_found_def)

lemma dls_ended:
  assumes "free g start" and "0 \<le> depth_limit"
  shows "ended (run_dls g start goal depth_limit)
           (stack_d (run_dls g start goal depth_limit) = [])"
  using dls_run_cases [OF assms, of goal]
  by (auto simp: ended_def dls_inv_def going_def found_within_def)

lemma astar_ended:
  "ended (run_astar g start goal) (open_set (run_astar g start goal) = [])"
  using astar_run_cases [of g start goal]
  by (auto simp: ended_def astar_inv_def astar_safe_def going_def ended_found_def)

text \<open>
  Claim C9. On a well-formed (hence finite) grid with a free start and a free goal, and
  a depth limit that is not negative, each of the five search loops terminates: the final
  state is reached after a number of iterations bounded by the measure of the initial
  state, without an exception, and the loop is left by reaching the goal or by
  exhausting the frontier.
\<close>

theorem runs_terminate:
  assumes "wf_grid g" and "free g start" and "free g goal" and "0 \<le> depth_limit"
  shows "(\<exists>n \<le> astar_measure g (astar_init start goal).
            run_astar g start goal = (astar_step g goal ^^ n) (astar_init start goal)) \<and>
         ended (run_astar g start goal) (open_set (run_astar g start goal) = []) \<and>
         (\<exists>n \<le> bfs_measure g (bfs_init start).
            run_bfs g start goal = (bfs_step g goal ^^ n) (bfs_init start)) \<and>
         ended (run_bfs g start goal) (queue (run_bfs g start goal) = []) \<and>
         (\<exists>n \<le> lazy_measure g (stack (dfs_init start)) (visited (dfs_init start)).
            run_dfs g start goal = (dfs_step g goal ^^ n) (dfs_init start)) \<and>
         ended (run_dfs g start goal) (stack (run_dfs g start goal) = []) \<and>
         (\<exists>n \<le> ucs_measure g (ucs_init start).
            run_ucs g start goal = (ucs_step g goal ^^ n) (ucs_init start)) \<and>
         ended (run_ucs g start goal) (open_set (run_ucs g start goal) = []) \<and>
         (\<exists>n \<le> dls_measure g (dls_init start).
            run_dls g start goal depth_limit =
              (dls_step g goal depth_limit ^^ n) (dls_init start)) \<and>
         ended (run_dls g start goal depth_limit)
           (stack_d (run_dls g start goal depth_limit) = [])"
proof (intro conjI)
  show "\<exists>n \<le> astar_measure g (astar_init start goal).
            run_astar g start goal = (astar_step g goal ^^ n) (astar_init start goal)"
    unfolding run_astar_def by (rule astar_loop_iterations)
  show "\<exists>n \<le> bfs_measure g (bfs_init start).
            run_bfs g start goal = (bfs_step g goal ^^ n) (bfs_init start)"
    unfolding run_bfs_def by (rule bfs_loop_iterations)
  show "\<exists>n \<le> lazy_measure g (stack (dfs_init start)) (visited (dfs_init start)).
            run_dfs g start goal = (dfs_step g goal ^^ n) (dfs_init start)"
    unfolding run_dfs_def by (rule dfs_loop_iterations)
  show "\<exists>n \<le> ucs_measure g (ucs_init start).
            run_ucs g start goal = (ucs_step g goal ^^ n) (ucs_init start)"
    unfolding run_ucs_def by (rule ucs_loop_iterations)
  show "\<exists>n \<le> dls_measure g (dls_init start).
            run_dls g start goal depth_limit =
              (dls_step g goal depth_limit ^^ n) (dls_init start)"
    unfolding run_dls_def by (rule dls_loop_iterations)
  show "ended (run_astar g start goal) (open_set (run_astar g start goal) = [])"
    by (rule astar_ended)
  show "ended (run_bfs g start goal) (queue (run_bfs g start goal) = [])"
    using assms(2) by (rule bfs_ended)
  show "ended (run_dfs g start goal) (stack (run_dfs g start goal) = [])"
    using assms(2) by (rule dfs_ended)
  show "ended (run_ucs g start goal) (open_set (run_ucs g start goal) = [])"
    using assms(2) by (rule ucs_ended)
  show "ended (run_dls g start goal depth_limit)
           (stack_d (run_dls g start goal depth_limit) = [])"
    using assms(2,4) by (rule dls_ended)
qed

theorem runs_terminate_witness:
  "wf_grid demo_grid \<and> free demo_grid (0, 0) \<and> free demo_grid (0, 2) \<and>
   (\<exists>n \<le> astar_measure demo_grid (astar_init (0, 0) (0, 2)).
      run_astar demo_grid (0, 0) (0, 2) =
        (astar_step demo_grid (0, 2) ^^ n) (astar_init (0, 0) (0, 2))) \<and>
   ended (run_astar demo_grid (0, 0) (0, 2)) (open_set (run_astar demo_grid (0, 0) (0, 2)) = []) \<and>
   (\<exists>n \<le> bfs_measure demo_grid (bfs_init (0, 0)).
      run_bfs demo_grid (0, 0) (0, 2) = (bfs_step demo_grid (0, 2) ^^ n) (bfs_init (0, 0))) \<and>
   ended (run_bfs demo_grid (0, 0) (0, 2)) (queue (run_bfs demo_grid (0, 0) (0, 2)) = []) \<and>
   (\<exists>n \<le> dls_measure demo_grid (dls_init (0, 0)).
      run_dls demo_grid (0, 0) (0, 2) 15 =
        (dls_step demo_grid (0, 2) 15 ^^ n) (dls_init (0, 0))) \<and>
   ended (run_dls demo_grid (0, 0) (0, 2) 15) (stack_d (run_dls demo_grid (0, 0) (0, 2) 15) = [])"
proof -
  have w: "wf_grid demo_grid"
    by (simp add: wf_grid_def demo_grid_def)
  have f: "free demo_grid (0, 0)" "free demo_grid (0, 2)"
    by (simp_all add: free_def in_bounds_def cell_def demo_grid_def)
  have l: "(0::int) \<le> 15" by simp
  show ?thesis
    using runs_terminate [OF w f l] w f by simp
qed

section \<open>Start and goal on a straight line\<close>

text \<open>
  The Manhattan distance bounds every path from below: each step changes it by at most 1.
\<close>

lemma heuristic_step: "adjacent y x \<Longrightarrow> heuristic a x \<le> heuristic a y + 1"
  by (auto simp: adjacent_def heuristic_def)

lemma manhattan_bound:
  assumes "path_between g a b p"
  shows "heuristic a b + 1 \<le> int (length p)"
  using assms
proof (induction rule: path_between_induct)
  case start
  then show ?case by (simp add: heuristic_def)
next
  case (step y q x)
  then show ?case using heuristic_step [of y x a] by simp
qed

text \<open>
  \<open>line start dir j\<close> is the coordinate \<open>j\<close> steps from \<open>start\<close> in direction \<open>dir\<close>,
  one of the four directions of \<open>get_neighbors\<close>.
\<close>

definition line :: "pos \<Rightarrow> int \<times> int \<Rightarrow> int \<Rightarrow> pos" where
  "line start dir j = (fst start + j * fst dir, snd start + j * snd dir)"

lemma line_inj: "dir \<in> set directions \<Longrightarrow> line start dir j = line start dir k \<longleftrightarrow> j = k"
  by (auto simp: directions_def line_def)

lemma line_heuristic:
  "dir \<in> set directions \<Longrightarrow> heuristic (line start dir j) (line start dir k) = \<bar>k - j\<bar>"
  by (auto simp: directions_def line_def heuristic_def)

lemma line_adjacent:
  "dir \<in> set directions \<Longrightarrow> adjacent (line start dir k) (line start dir j) \<longleftrightarrow> \<bar>j - k\<bar> = 1"
  by (auto simp: directions_def line_def adjacent_def)

lemma line_0 [simp]: "line start dir 0 = start"
  by (simp add: line_def)

text \<open>A neighbour of a line coordinate is the next one, the previous one, or further from the goal.\<close>

lemma line_neighbor:
  assumes "dir \<in> set directions" and "adjacent (line start dir k) n" and "k \<le> D"
  shows "n = line start dir (k + 1) \<or> n = line start dir (k - 1) \<or>
         heuristic n (line start dir D) = D - k + 1"
  using assms by (cases n) (auto simp: directions_def line_def adjacent_def heuristic_def)


text \<open>The coordinates of the line up to \<open>n\<close> steps form a path when they are free.\<close>

lemma upto_snoc: "[0..1 + int n] = [0..int n] @ [1 + int n]"
  using upto_rec2 [of 0 "1 + int n"] by simp

lemma line_path:
  assumes "dir \<in> set directions" and "\<forall>j \<in> {0..int n}. free g (line start dir j)"
  shows "path_between g start (line start dir (int n)) (map (line start dir) [0..int n])"
  using assms(2)
proof (induction n)
  case 0
  then show ?case by (simp add: path_between_single)
next
  case (Suc n)
  let ?p = "map (line start dir) [0..int n]"
  have ih: "path_between g start (line start dir (int n)) ?p"
    using Suc by simp
  then have l: "?p \<noteq> []" "last ?p = line start dir (int n)"
    by (simp_all add: path_between_def valid_path_def)
  have a: "adjacent (line start dir (int n)) (line start dir (int n + 1))"
    using assms(1) by (simp add: line_adjacent)
  have f: "free g (line start dir (int n + 1))"
    using Suc.prems by simp
  have "path_between g start (line start dir (int n + 1)) (?p @ [line start dir (int n + 1)])"
    using l ih a f by (simp add: path_between_snoc)
  then show ?case
    by (simp add: upto_snoc add.commute)
qed

lemma line_chain:
  assumes "cf start = None"
    and "\<forall>j \<in> {1..int n}. cf (line start dir j) = Some (line start dir (j - 1))"
  shows "chain cf (line start dir (int n)) (map (line start dir) [0..int n])"
  using assms(2)
proof (induction n)
  case 0
  then show ?case using assms(1) by (simp add: chain.root)
next
  case (Suc n)
  have ih: "chain cf (line start dir (int n)) (map (line start dir) [0..int n])"
    using Suc by simp
  have "cf (line start dir (int n + 1)) = Some (line start dir (int n))"
    using Suc.prems by simp
  then have "chain cf (line start dir (int n + 1))
               (map (line start dir) [0..int n] @ [line start dir (int n + 1)])"
    using ih by (rule chain.link)
  then show ?case
    by (simp add: upto_snoc add.commute)
qed

subsection \<open>A* along the line\<close>

text \<open>What one neighbour does to the state when the code reaches the cost comparison.\<close>

lemma astar_neighbor_cases:
  assumes "abort s = None" and "n \<notin> closed_set s" and "g_score s c = Some gc"
  shows "abort (astar_neighbor goal c n s) = None \<and>
         found_path (astar_neighbor goal c n s) = found_path s \<and>
         closed_set (astar_neighbor goal c n s) = closed_set s \<and>
         ((astar_neighbor goal c n s = s \<and> g_score s n \<noteq> None) \<or>
          ((g_score s n = None \<or> (\<exists>gn. g_score s n = Some gn \<and> gc + 1 < gn)) \<and>
           came_from (astar_neighbor goal c n s) = (came_from s)(n \<mapsto> c) \<and>
           g_score (astar_neighbor goal c n s) = (g_score s)(n \<mapsto> gc + 1) \<and>
           open_set (astar_neighbor goal c n s) =
             (if n \<in> snd ` set (open_set s) then open_set s
              else open_set s @ [(gc + 1 + heuristic n goal, n)])))"
  using assms by (auto simp: astar_neighbor_def Let_def heappush_def split: option.splits)


text \<open>
  The state of the A* loop at the top of iteration \<open>k\<close> when the start and the goal lie
  \<open>D\<close> steps apart on a free line: the closed set is the line before \<open>k\<close>; the open list
  holds the line coordinate \<open>k\<close> with priority 0 (the start) or \<open>D\<close>, and otherwise only
  coordinates off the line with a priority above \<open>D\<close>; the costs and predecessors on the
  line up to \<open>k\<close> are those of the line.
\<close>

definition line_key :: "int \<Rightarrow> int \<Rightarrow> int" where
  "line_key D k = (if k = 0 then 0 else D)"

definition on_line :: "pos \<Rightarrow> int \<times> int \<Rightarrow> int \<Rightarrow> int \<Rightarrow> run_state \<Rightarrow> bool" where
  "on_line start dir D k s \<longleftrightarrow>
     abort s = None \<and> found_path s = None \<and>
     closed_set s = line start dir ` {0..<k} \<and>
     distinct (map snd (open_set s)) \<and>
     (line_key D k, line start dir k) \<in> set (open_set s) \<and>
     (\<forall>e \<in> set (open_set s). e = (line_key D k, line start dir k) \<or>
        (D < fst e \<and> snd e \<notin> line start dir ` {0..D})) \<and>
     (\<forall>j \<in> {0..k}. g_score s (line start dir j) = Some j) \<and>
     (\<forall>j \<in> {k<..D}. g_score s (line start dir j) = None) \<and>
     came_from s start = None \<and>
     (\<forall>j \<in> {1..k}. came_from s (line start dir j) = Some (line start dir (j - 1)))"

text \<open>
  The state inside iteration \<open>k\<close>, after the pop and between two neighbours; \<open>pushed\<close>
  tells whether the next line coordinate has been handled.
\<close>

definition mid :: "pos \<Rightarrow> int \<times> int \<Rightarrow> int \<Rightarrow> int \<Rightarrow> bool \<Rightarrow> run_state \<Rightarrow> bool" where
  "mid start dir D k pushed s \<longleftrightarrow>
     abort s = None \<and> found_path s = None \<and>
     closed_set s = line start dir ` {0..k} \<and>
     distinct (map snd (open_set s)) \<and>
     (\<forall>e \<in> set (open_set s). e = (D, line start dir (k + 1)) \<or>
        (D < fst e \<and> snd e \<notin> line start dir ` {0..D})) \<and>
     (\<forall>j \<in> {0..k}. g_score s (line start dir j) = Some j) \<and>
     (\<forall>j \<in> {k + 1<..D}. g_score s (line start dir j) = None) \<and>
     came_from s start = None \<and>
     (\<forall>j \<in> {1..k}. came_from s (line start dir j) = Some (line start dir (j - 1))) \<and>
     (if pushed
      then g_score s (line start dir (k + 1)) = Some (k + 1) \<and>
           came_from s (line start dir (k + 1)) = Some (line start dir k) \<and>
           (D, line start dir (k + 1)) \<in> set (open_set s)
      else g_score s (line start dir (k + 1)) = None \<and>
           line start dir (k + 1) \<notin> snd ` set (open_set s))"

lemma mid_neighbor:
  assumes dir: "dir \<in> set directions" and k: "0 \<le> k" "k < D"
    and m: "mid start dir D k b s" and adj: "adjacent (line start dir k) n"
  shows "mid start dir D k (b \<or> n = line start dir (k + 1))
           (astar_neighbor (line start dir D) (line start dir k) n s)"
proof -
  let ?L = "line start dir"
  let ?s' = "astar_neighbor (?L D) (?L k) n s"
  note inj = line_inj [OF dir, of start]
  have ab: "abort s = None" and fp: "found_path s = None"
    and cl: "closed_set s = ?L ` {0..k}"
    and di: "distinct (map snd (open_set s))"
    and en: "\<And>e. e \<in> set (open_set s) \<Longrightarrow>
                e = (D, ?L (k + 1)) \<or> (D < fst e \<and> snd e \<notin> ?L ` {0..D})"
    and gs: "\<And>j. 0 \<le> j \<Longrightarrow> j \<le> k \<Longrightarrow> g_score s (?L j) = Some j"
    and gn: "\<And>j. k + 1 < j \<Longrightarrow> j \<le> D \<Longrightarrow> g_score s (?L j) = None"
    and c0: "came_from s start = None"
    and cf: "\<And>j. 1 \<le> j \<Longrightarrow> j \<le> k \<Longrightarrow> came_from s (?L j) = Some (?L (j - 1))"
    and pu: "if b then g_score s (?L (k + 1)) = Some (k + 1) \<and>
                       came_from s (?L (k + 1)) = Some (?L k) \<and>
                       (D, ?L (k + 1)) \<in> set (open_set s)
             else g_score s (?L (k + 1)) = None \<and> ?L (k + 1) \<notin> snd ` set (open_set s)"
    using m unfolding mid_def by auto
  have gk: "g_score s (?L k) = Some k"
    using gs [of k] k by simp
  have s0: "start = ?L 0" by simp
  consider (closed) "n \<in> closed_set s" | (nxt) "n = ?L (k + 1)"
    | (off) "n \<notin> ?L ` {0..D}" "n \<notin> closed_set s"
  proof (cases "n \<in> ?L ` {0..D}")
    case True
    then obtain j where j: "n = ?L j" "0 \<le> j" "j \<le> D" by auto
    then have "\<bar>j - k\<bar> = 1"
      using adj line_adjacent [OF dir, of start k j] by simp
    then have "j = k + 1 \<or> j = k - 1" by linarith
    then show ?thesis
    proof
      assume "j = k + 1"
      then show ?thesis using j nxt by simp
    next
      assume "j = k - 1"
      then have "n \<in> ?L ` {0..k}" using j by auto
      then show ?thesis using closed cl by simp
    qed
  next
    case False
    moreover have "n \<notin> closed_set s"
      using False k cl by auto
    ultimately show ?thesis using off by blast
  qed
  then show ?thesis
  proof cases
    case closed
    then have same: "?s' = s"
      by (simp add: astar_neighbor_def)
    have "n \<noteq> ?L (k + 1)"
      using closed cl inj by auto
    then show ?thesis
      using m same by simp
  next
    case nxt
    have nc: "n \<notin> closed_set s"
      using nxt cl inj by auto
    note cases = astar_neighbor_cases [OF ab nc gk, of "?L D"]
    show ?thesis
    proof (cases b)
      case True
      then have "g_score s n = Some (k + 1)"
        using pu nxt by simp
      then have "?s' = s"
        using cases by auto
      then show ?thesis
        using m True by simp
    next
      case False
      then have g0: "g_score s n = None" and no: "n \<notin> snd ` set (open_set s)"
        using pu nxt by simp_all
      have h: "heuristic n (?L D) = D - (k + 1)"
        using line_heuristic [OF dir, of start "k + 1" D] k nxt by simp
      have a': "abort ?s' = None" and f': "found_path ?s' = None"
        and cl': "closed_set ?s' = ?L ` {0..k}"
        and cf': "came_from ?s' = (came_from s)(n \<mapsto> ?L k)"
        and g': "g_score ?s' = (g_score s)(n \<mapsto> k + 1)"
        and o': "open_set ?s' = open_set s @ [(D, n)]"
        using cases g0 no h fp cl by auto
      have ne: "\<And>j. j \<noteq> k + 1 \<Longrightarrow> ?L j \<noteq> n"
        using nxt inj by simp
      have 1: "distinct (map snd (open_set ?s'))"
        using di no by (simp add: o' image_iff)
      have 2: "\<forall>e \<in> set (open_set ?s'). e = (D, ?L (k + 1)) \<or>
                 (D < fst e \<and> snd e \<notin> ?L ` {0..D})"
      proof
        fix e
        assume "e \<in> set (open_set ?s')"
        then have "e \<in> set (open_set s) \<or> e = (D, n)"
          unfolding o' by auto
        then show "e = (D, ?L (k + 1)) \<or> (D < fst e \<and> snd e \<notin> ?L ` {0..D})"
          using en [of e] nxt by blast
      qed
      have 3: "\<forall>j \<in> {0..k}. g_score ?s' (?L j) = Some j"
        using gs ne by (simp add: g')
      have 4: "\<forall>j \<in> {k + 1<..D}. g_score ?s' (?L j) = None"
        using gn ne by (simp add: g')
      have 5: "came_from ?s' start = None"
        using c0 ne [of 0] k by (simp add: cf')
      have 6: "\<forall>j \<in> {1..k}. came_from ?s' (?L j) = Some (?L (j - 1))"
        using cf ne by (simp add: cf')
      have "g_score ?s' n = Some (k + 1) \<and> came_from ?s' n = Some (?L k) \<and>
            (D, n) \<in> set (open_set ?s')"
        by (simp add: g' cf' o')
      then have 7: "g_score ?s' (?L (k + 1)) = Some (k + 1) \<and>
               came_from ?s' (?L (k + 1)) = Some (?L k) \<and>
               (D, ?L (k + 1)) \<in> set (open_set ?s')"
        using nxt by simp
      show ?thesis
        unfolding mid_def using a' f' cl' 1 2 3 4 5 6 7 nxt by simp
    qed
  next
    case off
    note cases = astar_neighbor_cases [OF ab off(2) gk, of "?L D"]
    have ne: "\<And>j. 0 \<le> j \<Longrightarrow> j \<le> D \<Longrightarrow> ?L j \<noteq> n"
      using off(1) by auto
    have nn: "n \<noteq> ?L (k + 1)"
      using ne [of "k + 1"] k by auto
    have h: "heuristic n (?L D) = D - k + 1"
    proof (cases "n = ?L (k - 1)")
      case True
      have "\<not> 0 < k"
      proof
        assume "0 < k"
        then have "?L (k - 1) \<noteq> n"
          using k by (intro ne) simp_all
        then show False using True by simp
      qed
      then have "k = 0"
        using k by linarith
      then show ?thesis
        using True line_heuristic [OF dir, of start "k - 1" D] k by simp
    next
      case False
      then show ?thesis
        using line_neighbor [OF dir adj, of D] nn k by auto
    qed
    have a': "abort ?s' = None" and f': "found_path ?s' = None"
      and cl': "closed_set ?s' = ?L ` {0..k}"
      using cases fp cl by auto
    have alt: "?s' = s \<or>
      (came_from ?s' = (came_from s)(n \<mapsto> ?L k) \<and>
       g_score ?s' = (g_score s)(n \<mapsto> k + 1) \<and>
       (open_set ?s' = open_set s \<or>
        (n \<notin> snd ` set (open_set s) \<and> open_set ?s' = open_set s @ [(D + 2, n)])))"
      using cases h by (auto split: if_splits)
    have "mid start dir D k b ?s'"
    proof (cases "?s' = s")
      case True
      then show ?thesis using m by simp
    next
      case False
      then have cf': "came_from ?s' = (came_from s)(n \<mapsto> ?L k)"
        and g': "g_score ?s' = (g_score s)(n \<mapsto> k + 1)"
        and o': "open_set ?s' = open_set s \<or>
          (n \<notin> snd ` set (open_set s) \<and> open_set ?s' = open_set s @ [(D + 2, n)])"
        using alt by blast+
      have 1: "distinct (map snd (open_set ?s'))"
        using di o' by (auto simp: image_iff)
      have 2: "\<forall>e \<in> set (open_set ?s'). e = (D, ?L (k + 1)) \<or>
                 (D < fst e \<and> snd e \<notin> ?L ` {0..D})"
      proof
        fix e
        assume "e \<in> set (open_set ?s')"
        then have "e \<in> set (open_set s) \<or> e = (D + 2, n)"
          using o' by auto
        then show "e = (D, ?L (k + 1)) \<or> (D < fst e \<and> snd e \<notin> ?L ` {0..D})"
          using en [of e] off(1) by auto
      qed
      have 3: "\<forall>j \<in> {0..k}. g_score ?s' (?L j) = Some j"
        using gs ne k by (simp add: g')
      have 4: "\<forall>j \<in> {k + 1<..D}. g_score ?s' (?L j) = None"
        using gn ne k by (simp add: g')
      have 5: "came_from ?s' start = None"
        using c0 ne [of 0] k by (simp add: cf')
      have 6: "\<forall>j \<in> {1..k}. came_from ?s' (?L j) = Some (?L (j - 1))"
        using cf ne k by (simp add: cf')
      have 7: "if b then g_score ?s' (?L (k + 1)) = Some (k + 1) \<and>
                       came_from ?s' (?L (k + 1)) = Some (?L k) \<and>
                       (D, ?L (k + 1)) \<in> set (open_set ?s')
               else g_score ?s' (?L (k + 1)) = None \<and>
                    ?L (k + 1) \<notin> snd ` set (open_set ?s')"
      proof (cases b)
        case True
        then show ?thesis
          using pu nn o' by (auto simp: g' cf')
      next
        case False
        then show ?thesis
          using pu nn o' by (auto simp: g' cf')
      qed
      show ?thesis
        unfolding mid_def using a' f' cl' 1 2 3 4 5 6 7 by simp
    qed
    then show ?thesis
      using nn by simp
  qed
qed


lemma mid_fold:
  assumes dir: "dir \<in> set directions" and k: "0 \<le> k" "k < D"
  shows "mid start dir D k b s \<Longrightarrow> \<forall>n \<in> set ns. adjacent (line start dir k) n \<Longrightarrow>
         mid start dir D k (b \<or> line start dir (k + 1) \<in> set ns)
           (fold (astar_neighbor (line start dir D) (line start dir k)) ns s)"
proof (induction ns arbitrary: b s)
  case Nil
  then show ?case by simp
next
  case (Cons n ns)
  let ?s1 = "astar_neighbor (line start dir D) (line start dir k) n s"
  have "adjacent (line start dir k) n"
    using Cons.prems(2) by simp
  then have "mid start dir D k (b \<or> n = line start dir (k + 1)) ?s1"
    by (rule mid_neighbor [OF dir k Cons.prems(1)])
  then have "mid start dir D k ((b \<or> n = line start dir (k + 1)) \<or> line start dir (k + 1) \<in> set ns)
               (fold (astar_neighbor (line start dir D) (line start dir k)) ns ?s1)"
    using Cons.prems(2) by (intro Cons.IH) simp_all
  moreover have "((b \<or> n = line start dir (k + 1)) \<or> line start dir (k + 1) \<in> set ns)
                 = (b \<or> line start dir (k + 1) \<in> set (n # ns))"
    by auto
  ultimately show ?case by simp
qed

lemma line_key_le: "0 \<le> D \<Longrightarrow> line_key D k \<le> D"
  by (simp add: line_key_def)

lemma on_line_pop:
  assumes k: "0 \<le> k" "k \<le> D" and o: "on_line start dir D k s"
  shows "open_set s \<noteq> []"
    and "heap_min (open_set s) = (line_key D k, line start dir k)"
    and "\<forall>e \<in> set (remove1 (line_key D k, line start dir k) (open_set s)).
           D < fst e \<and> snd e \<notin> line start dir ` {0..D}"
    and "distinct (map snd (remove1 (line_key D k, line start dir k) (open_set s)))"
proof -
  let ?x = "(line_key D k, line start dir k)"
  have mem: "?x \<in> set (open_set s)"
    and di: "distinct (map snd (open_set s))"
    and en: "\<And>e. e \<in> set (open_set s) \<Longrightarrow>
               e = ?x \<or> (D < fst e \<and> snd e \<notin> line start dir ` {0..D})"
    using o unfolding on_line_def by auto
  show ne: "open_set s \<noteq> []"
    using mem by auto
  have "heap_min (open_set s) \<le> ?x"
    using mem by (rule heap_min_le)
  then have "fst (heap_min (open_set s)) \<le> line_key D k"
    using fst_le_of_le by fastforce
  then have "\<not> D < fst (heap_min (open_set s))"
    using line_key_le [of D k] k by linarith
  then show "heap_min (open_set s) = ?x"
    using en [OF heap_min_in [OF ne]] by blast
  have "distinct (open_set s)"
    using di by (rule distinct_map [THEN iffD1, THEN conjunct1])
  then have "set (remove1 ?x (open_set s)) = set (open_set s) - {?x}"
    by (rule set_remove1_eq)
  then show "\<forall>e \<in> set (remove1 ?x (open_set s)).
               D < fst e \<and> snd e \<notin> line start dir ` {0..D}"
    using en by blast
  show "distinct (map snd (remove1 ?x (open_set s)))"
    using di by (rule distinct_map_remove1)
qed

lemma on_line_init:
  assumes dir: "dir \<in> set directions"
  shows "on_line start dir D 0 (astar_init start goal)"
proof -
  have "line start dir j \<noteq> start" if "0 < j" for j
    using line_inj [OF dir, of start j 0] that by simp
  then show ?thesis
    by (simp add: on_line_def astar_init_def blank_def heappush_def line_key_def)
qed


text \<open>The state after the goal was popped at the end of the line.\<close>

definition line_done :: "pos \<Rightarrow> int \<times> int \<Rightarrow> int \<Rightarrow> run_state \<Rightarrow> bool" where
  "line_done start dir D s \<longleftrightarrow>
     abort s = None \<and> found_path s = Some (map (line start dir) [0..D])"

lemma on_line_step:
  assumes dir: "dir \<in> set directions"
    and fr: "\<forall>j \<in> {0..D}. free g (line start dir j)"
    and k: "0 \<le> k" "k \<le> D" and o: "on_line start dir D k s"
  shows "if k < D then on_line start dir D (k + 1) (astar_step g (line start dir D) s)
         else line_done start dir D (astar_step g (line start dir D) s)"
proof -
  let ?L = "line start dir"
  let ?x = "(line_key D k, ?L k)"
  note inj = line_inj [OF dir, of start]
  define s1 where "s1 = s\<lparr> open_set := remove1 ?x (open_set s),
    frontier_cells := frontier_cells s - {?L k}, accepted := accepted s @ [?L k] \<rparr>"
  note pop = on_line_pop [OF k o]
  have hp: "heappop (open_set s) = (?x, remove1 ?x (open_set s))"
    using pop(2) by (simp add: heappop_def)
  have ab: "abort s = None" and fp: "found_path s = None"
    and cl: "closed_set s = ?L ` {0..<k}"
    and gs: "\<forall>j \<in> {0..k}. g_score s (?L j) = Some j"
    and gn: "\<forall>j \<in> {k<..D}. g_score s (?L j) = None"
    and c0: "came_from s start = None"
    and cf: "\<forall>j \<in> {1..k}. came_from s (?L j) = Some (?L (j - 1))"
    using o unfolding on_line_def by auto
  show ?thesis
  proof (cases "k < D")
    case False
    then have kD: "k = D" using k by simp
    have step: "astar_step g (?L D) s = finish (?L D) s1"
      using pop(1) hp kD by (simp add: astar_step_def s1_def Let_def)
    have "chain (came_from s1) (?L (int (nat D))) (map ?L [0..int (nat D)])"
      using c0 cf kD k by (intro line_chain) (simp_all add: s1_def)
    then have "chain (came_from s1) (?L D) (map ?L [0..D])"
      using k kD by simp
    then have "finish (?L D) s1 = s1\<lparr>found_path := Some (map ?L [0..D])\<rparr>"
      by (rule finish_chain)
    then show ?thesis
      using False ab step by (simp add: line_done_def s1_def)
  next
    case True
    have neq: "?L k \<noteq> ?L D"
      using True inj by simp
    define s2 where "s2 = s1\<lparr> closed_set := insert (?L k) (closed_set s1),
      visited_cells := insert (?L k) (visited_cells s1),
      nodes_visited := nodes_visited s1 + 1 \<rparr>"
    have step: "astar_step g (?L D) s =
                  fold (astar_neighbor (?L D) (?L k)) (get_neighbors g (?L k)) s2"
      using pop(1) hp neq by (simp add: astar_step_def s1_def s2_def Let_def)
    have set_k: "insert k {0..<k} = {0..k}"
      using k by auto
    have cl2: "closed_set s2 = ?L ` {0..k}"
      using cl set_k by (simp add: s2_def s1_def image_insert [symmetric] del: image_insert)
    have o2: "open_set s2 = remove1 ?x (open_set s)"
      by (simp add: s2_def s1_def)
    have same: "g_score s2 = g_score s" "came_from s2 = came_from s" "abort s2 = abort s"
      "found_path s2 = found_path s"
      by (simp_all add: s2_def s1_def)
    have kl: "?L (k + 1) \<in> ?L ` {0..D}"
      using True k by auto
    have m2: "mid start dir D k False s2"
      unfolding mid_def o2 same cl2
      using ab fp pop(3) pop(4) gs gn c0 cf kl True by auto
    have adj: "\<forall>n \<in> set (get_neighbors g (?L k)). adjacent (?L k) n"
      by (simp add: get_neighbors_iff)
    have nx: "?L (k + 1) \<in> set (get_neighbors g (?L k))"
      using dir fr True k by (simp add: get_neighbors_iff line_adjacent)
    have m3: "mid start dir D k True (astar_step g (?L D) s)"
      using mid_fold [OF dir k(1) True m2 adj] nx by (simp add: step)
    let ?t = "astar_step g (?L D) s"
    have a3: "abort ?t = None" and f3: "found_path ?t = None"
      and cl3: "closed_set ?t = ?L ` {0..k}"
      and di3: "distinct (map snd (open_set ?t))"
      and en3: "\<forall>e \<in> set (open_set ?t). e = (D, ?L (k + 1)) \<or>
                  (D < fst e \<and> snd e \<notin> ?L ` {0..D})"
      and gs3: "\<And>j. 0 \<le> j \<Longrightarrow> j \<le> k \<Longrightarrow> g_score ?t (?L j) = Some j"
      and gn3: "\<forall>j \<in> {k + 1<..D}. g_score ?t (?L j) = None"
      and c03: "came_from ?t start = None"
      and cf3: "\<And>j. 1 \<le> j \<Longrightarrow> j \<le> k \<Longrightarrow> came_from ?t (?L j) = Some (?L (j - 1))"
      and pu3: "g_score ?t (?L (k + 1)) = Some (k + 1)"
        "came_from ?t (?L (k + 1)) = Some (?L k)"
        "(D, ?L (k + 1)) \<in> set (open_set ?t)"
      using m3 unfolding mid_def by auto
    have key: "line_key D (k + 1) = D"
      using k by (simp add: line_key_def)
    have set_k1: "{0..<k + 1} = {0..k}"
      by auto
    have g4: "\<forall>j \<in> {0..k + 1}. g_score ?t (?L j) = Some j"
    proof
      fix j assume "j \<in> {0..k + 1}"
      then have "(0 \<le> j \<and> j \<le> k) \<or> j = k + 1" by auto
      then show "g_score ?t (?L j) = Some j"
        using gs3 [of j] pu3(1) by auto
    qed
    have c4: "\<forall>j \<in> {1..k + 1}. came_from ?t (?L j) = Some (?L (j - 1))"
    proof
      fix j assume "j \<in> {1..k + 1}"
      then have "(1 \<le> j \<and> j \<le> k) \<or> j = k + 1" by auto
      then show "came_from ?t (?L j) = Some (?L (j - 1))"
        using cf3 [of j] pu3(2) by auto
    qed
    have "on_line start dir D (k + 1) ?t"
      unfolding on_line_def key set_k1
      using a3 f3 cl3 di3 en3 g4 gn3 c03 c4 pu3(3) by simp
    then show ?thesis
      using True by simp
  qed
qed

lemma astar_line:
  assumes dir: "dir \<in> set directions" and D: "0 \<le> D"
    and fr: "\<forall>j \<in> {0..D}. free g (line start dir j)"
  shows "line_done start dir D (run_astar g start (line start dir D))"
proof -
  let ?goal = "line start dir D"
  let ?I = "\<lambda>s. (\<exists>k. 0 \<le> k \<and> k \<le> D \<and> on_line start dir D k s) \<or> line_done start dir D s"
  let ?r = "run_astar g start ?goal"
  have "?I ?r"
    unfolding run_astar_def
  proof (rule astar_loop_invariant)
    show "?I (astar_init start ?goal)"
      using on_line_init [OF dir, of start D ?goal] D by blast
  next
    fix t
    assume I: "?I t" and go: "going t"
    have "\<not> line_done start dir D t"
      using go by (simp add: line_done_def going_def)
    then obtain k where k: "0 \<le> k" "k \<le> D" "on_line start dir D k t"
      using I by blast
    show "?I (astar_step g ?goal t)"
    proof (cases "k < D")
      case True
      then have "on_line start dir D (k + 1) (astar_step g ?goal t)"
        using on_line_step [OF dir fr k] by simp
      moreover have "0 \<le> k + 1" "k + 1 \<le> D"
        using k True by simp_all
      ultimately show ?thesis by blast
    next
      case False
      then show ?thesis
        using on_line_step [OF dir fr k] by simp
    qed
  qed
  moreover have "\<not> on_line start dir D k ?r" if "0 \<le> k" "k \<le> D" for k
  proof
    assume o: "on_line start dir D k ?r"
    have "open_set ?r \<noteq> []"
      using on_line_pop(1) [OF that o] .
    moreover have "going ?r"
      using o by (simp add: on_line_def going_def)
    ultimately show False
      using astar_loop_done [of g ?goal "astar_init start ?goal"]
      by (simp add: run_astar_def)
  qed
  ultimately show ?thesis by blast
qed


subsection \<open>The three runs on a free straight line\<close>

text \<open>
  \<open>between a b\<close> lists the coordinates of the rectangle spanned by \<open>a\<close> and \<open>b\<close>; when the
  two share a row or a column it is the segment from one to the other, both included.
  \<open>straight_free\<close>: start and goal share a row or a column and every coordinate of the
  segment is inside the grid and not an obstacle.
\<close>

definition between :: "pos \<Rightarrow> pos \<Rightarrow> pos list" where
  "between a b = List.product [min (fst a) (fst b)..max (fst a) (fst b)]
                              [min (snd a) (snd b)..max (snd a) (snd b)]"

definition straight_free :: "'a picker_scheme \<Rightarrow> pos \<Rightarrow> pos \<Rightarrow> bool" where
  "straight_free g start goal \<longleftrightarrow>
     (fst start = fst goal \<or> snd start = snd goal) \<and> list_all (free g) (between start goal)"

lemma straight_line:
  assumes "straight_free g start goal"
  shows "\<exists>dir \<in> set directions. goal = line start dir (heuristic start goal) \<and>
           (\<forall>j \<in> {0..heuristic start goal}. free g (line start dir j))"
proof -
  obtain r c r' c' where sg: "start = (r, c)" "goal = (r', c')"
    by (cases start; cases goal) blast
  have fr: "\<And>x y. min r r' \<le> x \<Longrightarrow> x \<le> max r r' \<Longrightarrow> min c c' \<le> y \<Longrightarrow> y \<le> max c c'
              \<Longrightarrow> free g (x, y)"
    using assms by (auto simp: straight_free_def between_def sg list_all_iff)
  have sh: "r = r' \<or> c = c'"
    using assms by (simp add: straight_free_def sg)
  consider (right) "r = r'" "c \<le> c'" | (left) "r = r'" "c' < c"
    | (down) "c = c'" "r \<le> r'" | (up) "c = c'" "r' < r"
    using sh by linarith
  then show ?thesis
  proof cases
    case right
    have "(0, 1) \<in> set directions" by (simp add: directions_def)
    moreover have "goal = line start (0, 1) (heuristic start goal)"
      using right by (simp add: sg line_def heuristic_def)
    moreover have "\<forall>j \<in> {0..heuristic start goal}. free g (line start (0, 1) j)"
      using right by (auto simp: sg line_def heuristic_def intro!: fr)
    ultimately show ?thesis by blast
  next
    case left
    have "(0, - 1) \<in> set directions" by (simp add: directions_def)
    moreover have "goal = line start (0, - 1) (heuristic start goal)"
      using left by (simp add: sg line_def heuristic_def)
    moreover have "\<forall>j \<in> {0..heuristic start goal}. free g (line start (0, - 1) j)"
      using left by (auto simp: sg line_def heuristic_def intro!: fr)
    ultimately show ?thesis by blast
  next
    case down
    have "(1, 0) \<in> set directions" by (simp add: directions_def)
    moreover have "goal = line start (1, 0) (heuristic start goal)"
      using down by (simp add: sg line_def heuristic_def)
    moreover have "\<forall>j \<in> {0..heuristic start goal}. free g (line start (1, 0) j)"
      using down by (auto simp: sg line_def heuristic_def intro!: fr)
    ultimately show ?thesis by blast
  next
    case up
    have "(- 1, 0) \<in> set directions" by (simp add: directions_def)
    moreover have "goal = line start (- 1, 0) (heuristic start goal)"
      using up by (simp add: sg line_def heuristic_def)
    moreover have "\<forall>j \<in> {0..heuristic start goal}. free g (line start (- 1, 0) j)"
      using up by (auto simp: sg line_def heuristic_def intro!: fr)
    ultimately show ?thesis by blast
  qed
qed

lemma shortest_length:
  assumes sf: "shortest_found g start goal s"
    and lp: "path_between g start goal q" "int (length q) = heuristic start goal + 1"
  shows "\<exists>p. result s = PathFound p \<and> path_between g start goal p \<and>
             int (length p) = heuristic start goal + 1"
proof -
  obtain p where p: "result s = PathFound p" "path_between g start goal p"
    "\<forall>q. path_between g start goal q \<longrightarrow> length p \<le> length q"
    using shortest_found_result [OF sf] by blast
  have "length p \<le> length q"
    using p(3) lp(1) by blast
  moreover have "heuristic start goal + 1 \<le> int (length p)"
    using p(2) by (rule manhattan_bound)
  ultimately have "int (length p) = heuristic start goal + 1"
    using lp(2) by linarith
  then show ?thesis
    using p by blast
qed

text \<open>
  Claim C2. On a well-formed grid, if the start and the goal share a row or a column and
  every cell of the segment between them, both ends included, is inside the grid and not
  an obstacle, then the breadth-first, the uniform-cost and the A* run each end without an
  exception and return a path of free, 4-adjacent cells from the start to the goal whose
  number of cells is the Manhattan distance between start and goal plus 1.
\<close>

theorem straight_line_paths:
  assumes "wf_grid g" and "straight_free g start goal"
  shows "\<exists>pb pu pa.
           result (run_bfs g start goal) = PathFound pb \<and>
           result (run_ucs g start goal) = PathFound pu \<and>
           result (run_astar g start goal) = PathFound pa \<and>
           path_between g start goal pb \<and> path_between g start goal pu \<and>
           path_between g start goal pa \<and>
           int (length pb) = heuristic start goal + 1 \<and>
           int (length pu) = heuristic start goal + 1 \<and>
           int (length pa) = heuristic start goal + 1 \<and>
           abort (run_bfs g start goal) = None \<and> abort (run_ucs g start goal) = None \<and>
           abort (run_astar g start goal) = None"
proof -
  define D where "D = heuristic start goal"
  obtain dir where dir: "dir \<in> set directions" and goal: "goal = line start dir D"
    and fr: "\<forall>j \<in> {0..D}. free g (line start dir j)"
    using straight_line [OF assms(2)] unfolding D_def by blast
  have D: "0 \<le> D"
    by (simp add: D_def heuristic_def)
  let ?q = "map (line start dir) [0..D]"
  have "path_between g start (line start dir (int (nat D))) (map (line start dir) [0..int (nat D)])"
    using fr D by (intro line_path [OF dir]) simp
  then have q: "path_between g start goal ?q"
    using D goal by simp
  have lq: "int (length ?q) = heuristic start goal + 1"
    using D by (simp add: D_def)
  have ab: "abort (run_bfs g start goal) = None" "abort (run_ucs g start goal) = None"
    using bfs_complete [OF q] ucs_complete [OF q] by (simp_all add: shortest_found_def)
  obtain pb where pb: "result (run_bfs g start goal) = PathFound pb"
    "path_between g start goal pb" "int (length pb) = heuristic start goal + 1"
    using shortest_length [OF _ q lq] bfs_complete [OF q] by blast
  obtain pu where pu: "result (run_ucs g start goal) = PathFound pu"
    "path_between g start goal pu" "int (length pu) = heuristic start goal + 1"
    using shortest_length [OF _ q lq] ucs_complete [OF q] by blast
  have "line_done start dir D (run_astar g start goal)"
    unfolding goal using dir D fr by (rule astar_line)
  then have a: "abort (run_astar g start goal) = None"
    "found_path (run_astar g start goal) = Some ?q"
    by (simp_all add: line_done_def)
  have "?q \<noteq> []"
    using q by (auto simp: path_between_def valid_path_def)
  then have pa: "result (run_astar g start goal) = PathFound ?q"
    using a(2) by (simp add: result_def)
  show ?thesis
    using pb pu pa q lq ab a(1) by blast
qed

theorem straight_line_paths_witness:
  "wf_grid demo_grid \<and> straight_free demo_grid (1, 0) (1, 2) \<and>
   (\<exists>pb pu pa.
      result (run_bfs demo_grid (1, 0) (1, 2)) = PathFound pb \<and>
      result (run_ucs demo_grid (1, 0) (1, 2)) = PathFound pu \<and>
      result (run_astar demo_grid (1, 0) (1, 2)) = PathFound pa \<and>
      path_between demo_grid (1, 0) (1, 2) pb \<and> path_between demo_grid (1, 0) (1, 2) pu \<and>
      path_between demo_grid (1, 0) (1, 2) pa \<and>
      length pb = 3 \<and> length pu = 3 \<and> length pa = 3)"
proof -
  have w: "wf_grid demo_grid"
    by (simp add: wf_grid_def demo_grid_def)
  have s: "straight_free demo_grid (1, 0) (1, 2)"
    by (simp add: straight_free_def between_def upto.simps free_def in_bounds_def cell_def
        demo_grid_def)
  have h: "heuristic (1, 0) (1, 2) + 1 = 3"
    by (simp add: heuristic_def)
  show ?thesis
    using straight_line_paths [OF w s] w s unfolding h by fastforce
qed

section \<open>\<open>find_path\<close> and \<open>clear_path\<close>\<close>

text \<open>
  \<^verbatim>\<open>
  def find_path(self):
      if not self.start_pos or not self.goal_pos:
          messagebox.showwarning("Missing Positions", "Please set both start and goal positions")
          return
      if self.is_running:
          return
      self.clear_path()
      self.is_running = True
      algorithm = self.algorithm_var.get()
      self.stats["algorithm"] = algorithm
      if algorithm == Algorithm.ASTAR.value: self.root.after(100, self.run_astar)
      elif ...   # one branch for each algorithm

  def clear_path(self):
      for i in range(self.rows):
          for j in range(self.cols):
              if self.grid[i][j] in [CellType.PATH, CellType.VISITED, CellType.FRONTIER, CellType.CURRENT]:
                  self.grid[i][j] = CellType.EMPTY
      if self.start_pos:
          self.grid[self.start_pos[0]][self.start_pos[1]] = CellType.START
      if self.goal_pos:
          self.grid[self.goal_pos[0]][self.goal_pos[1]] = CellType.GOAL
      self.path = []; self.visited_cells = set(); self.frontier_cells = set()
      self.current_cell = None; self.robot_pos = None
  \<close>
  The application object extends the grid by the fields these two methods use. The
  overlay sets \<open>self.visited_cells\<close> and \<open>self.frontier_cells\<close> are named
  \<open>visited_cells_self\<close> and \<open>frontier_cells_self\<close> here (the run state has the plain names).
  A position is a pair or \<open>None\<close>; \<open>not self.start_pos\<close> is true for \<open>None\<close> only, since a
  pair is never empty.
\<close>

record app = picker +
  start_pos :: "pos option"
  goal_pos :: "pos option"
  is_running :: bool
  algorithm_var :: Algorithm
  depth_limit_var :: int
  stats_algorithm :: "Algorithm option"
  path :: "pos list"
  visited_cells_self :: "pos set"
  frontier_cells_self :: "pos set"
  current_cell :: "pos option"
  robot_pos :: "pos option"

text \<open>
  Python list indexing: a negative index counts from the end, an index out of range raises
  \<open>IndexError\<close>.
\<close>

definition py_index :: "nat \<Rightarrow> int \<Rightarrow> py_error + nat" where
  "py_index n i =
     (let j = (if i < 0 then int n + i else i)
      in if 0 \<le> j \<and> j < int n then Inr (nat j) else Inl IndexError)"

definition set_cell :: "CellType list list \<Rightarrow> pos \<Rightarrow> CellType \<Rightarrow> py_error + CellType list list"
where
  "set_cell gr p v =
     (case py_index (length gr) (fst p) of
        Inl e \<Rightarrow> Inl e
      | Inr i \<Rightarrow>
          (case py_index (length (gr ! i)) (snd p) of
             Inl e \<Rightarrow> Inl e
           | Inr j \<Rightarrow> Inr (gr[i := (gr ! i)[j := v]])))"

definition clear_cell :: "CellType list list \<Rightarrow> nat \<times> nat \<Rightarrow> py_error + CellType list list"
where
  "clear_cell gr ij =
     (if fst ij < length gr \<and> snd ij < length (gr ! fst ij)
      then if gr ! fst ij ! snd ij \<in> set [PATH, VISITED, FRONTIER, CURRENT]
           then Inr (gr[fst ij := (gr ! fst ij)[snd ij := EMPTY]])
           else Inr gr
      else Inl IndexError)"

text \<open>
  The grid is updated in place, so an exception leaves the writes made before it: a run
  of \<open>clear_path\<close> that raises returns the exception with the application state at the
  raise.
\<close>

fun clear_cells ::
  "(nat \<times> nat) list \<Rightarrow> CellType list list \<Rightarrow> py_error option \<times> CellType list list"
where
  "clear_cells [] gr = (None, gr)"
| "clear_cells (ij # rest) gr =
     (case clear_cell gr ij of Inl e \<Rightarrow> (Some e, gr) | Inr gr' \<Rightarrow> clear_cells rest gr')"

definition restore :: "pos option \<Rightarrow> CellType \<Rightarrow> CellType list list \<Rightarrow> py_error + CellType list list"
where
  "restore p v gr = (case p of None \<Rightarrow> Inr gr | Some q \<Rightarrow> set_cell gr q v)"

definition clear_path :: "app \<Rightarrow> py_error \<times> app + app" where
  "clear_path a =
     (case clear_cells (List.product [0..<nat (rows a)] [0..<nat (cols a)]) (grid a) of
        (Some e, g1) \<Rightarrow> Inl (e, a\<lparr> grid := g1 \<rparr>)
      | (None, g1) \<Rightarrow>
          (case restore (start_pos a) START g1 of
             Inl e \<Rightarrow> Inl (e, a\<lparr> grid := g1 \<rparr>)
           | Inr g2 \<Rightarrow>
               (case restore (goal_pos a) GOAL g2 of
                  Inl e \<Rightarrow> Inl (e, a\<lparr> grid := g2 \<rparr>)
                | Inr g3 \<Rightarrow>
                    Inr (a\<lparr> grid := g3, path := [], visited_cells_self := {},
                           frontier_cells_self := {}, current_cell := None,
                           robot_pos := None \<rparr>))))"

text \<open>
  What \<open>find_path\<close> does: it shows the "Missing Positions" warning, or returns silently
  because a run is in progress, or schedules the selected \<open>run_*\<close> method, or dies with
  the exception of \<open>clear_path\<close>, in the state \<open>clear_path\<close> left behind.
\<close>

datatype find_outcome = MissingPositions | AlreadyRunning | Scheduled Algorithm | Uncaught py_error

definition find_path :: "app \<Rightarrow> find_outcome \<times> app" where
  "find_path a =
     (if start_pos a = None \<or> goal_pos a = None then (MissingPositions, a)
      else if is_running a then (AlreadyRunning, a)
      else
        case clear_path a of
          Inl (e, a1) \<Rightarrow> (Uncaught e, a1)
        | Inr a1 \<Rightarrow>
            let a2 = a1\<lparr> is_running := True, stats_algorithm := Some (algorithm_var a1) \<rparr>
            in (Scheduled (algorithm_var a2), a2))"

text \<open>The callback that \<open>find_path\<close> hands to \<open>root.after\<close>.\<close>

definition scheduled_run :: "app \<Rightarrow> Algorithm \<Rightarrow> run_state" where
  "scheduled_run a algorithm =
     (let start = the (start_pos a); goal = the (goal_pos a) in
      case algorithm of
        ASTAR \<Rightarrow> run_astar a start goal
      | BFS \<Rightarrow> run_bfs a start goal
      | DFS \<Rightarrow> run_dfs a start goal
      | UCS \<Rightarrow> run_ucs a start goal
      | DLS \<Rightarrow> run_dls a start goal (depth_limit_var a))"

text \<open>
  Claim C6, as the code has it. The only check of \<open>find_path\<close> is for a missing
  position: when the start or the goal is \<open>None\<close> it shows the warning and returns
  before \<open>clear_path\<close> and before anything is scheduled, and the application state is
  unchanged. No search loop runs and no statistics are written.
\<close>

theorem find_path_missing:
  assumes "start_pos a = None \<or> goal_pos a = None"
  shows "find_path a = (MissingPositions, a)"
  using assms by (simp add: find_path_def)

definition small_app :: "pos option \<Rightarrow> pos option \<Rightarrow> app" where
  "small_app start goal = \<lparr> rows = 2, cols = 2, grid = [[OBSTACLE, EMPTY], [EMPTY, EMPTY]],
     start_pos = start, goal_pos = goal, is_running = False, algorithm_var = BFS,
     depth_limit_var = 15, stats_algorithm = None, path = [], visited_cells_self = {},
     frontier_cells_self = {}, current_cell = None, robot_pos = None \<rparr>"

theorem find_path_missing_witness:
  "goal_pos (small_app (Some (0, 1)) None) = None \<and>
   find_path (small_app (Some (0, 1)) None) = (MissingPositions, small_app (Some (0, 1)) None)"
  using find_path_missing [of "small_app (Some (0, 1)) None"]
  by (simp add: small_app_def)

text \<open>
  Claim C6 as stated fails for a start on an obstacle and for a start outside the grid.
  On the well-formed grid of two rows and two columns with an obstacle at (0,0): with
  start (0,0) and goal (0,1), \<open>find_path\<close> signals nothing, \<open>clear_path\<close> writes
  \<open>START\<close> over the obstacle, the breadth-first run is scheduled and finds a path. With
  start (-1,1), which is out of bounds, the run is scheduled as well and returns a path
  that begins outside the grid.
\<close>

theorem find_path_counterexample:
  "wf_grid (small_app (Some (0, 0)) (Some (0, 1))) \<and>
   cell (small_app (Some (0, 0)) (Some (0, 1))) (0, 0) = OBSTACLE \<and>
   fst (find_path (small_app (Some (0, 0)) (Some (0, 1)))) = Scheduled BFS \<and>
   grid (snd (find_path (small_app (Some (0, 0)) (Some (0, 1))))) = [[START, GOAL], [EMPTY, EMPTY]] \<and>
   result (scheduled_run (snd (find_path (small_app (Some (0, 0)) (Some (0, 1))))) BFS)
     = PathFound [(0, 0), (0, 1)] \<and>
   \<not> in_bounds (small_app (Some (- 1, 1)) (Some (1, 1))) (- 1, 1) \<and>
   fst (find_path (small_app (Some (- 1, 1)) (Some (1, 1)))) = Scheduled BFS \<and>
   result (scheduled_run (snd (find_path (small_app (Some (- 1, 1)) (Some (1, 1))))) BFS)
     = PathFound [(- 1, 1), (0, 1), (1, 1)]"
  by code_simp

end
